theory Spec2Isabelle
  imports Complex_Main "HOL-Library.Multiset"
begin

section \<open>Data model (src/types/poseidon.ts)\<close>

text \<open>
  The engine of \<^verbatim>\<open>src/components/poseidon/AnalysisEngine.ts\<close> is embedded function by
  function. A JavaScript \<^verbatim>\<open>number\<close> that holds a level, a power or a frequency is a
  \<^typ>\<open>real\<close> (rounding of IEEE doubles is not modelled, and the inputs are finite
  numbers); a \<^verbatim>\<open>Date\<close> is its \<^verbatim>\<open>getTime()\<close>, an \<^typ>\<open>int\<close> of milliseconds; an array
  index or a loop counter is a \<^typ>\<open>nat\<close>; an array is a list.
\<close>

record DataPoint =
  timestamp :: int
  seaLevel :: real
  originalIndex :: int

datatype Confidence = High | Medium | Low

datatype EventType =
    RisingTide | FallingTide | HighTide | LowTide | StormSurge | Seiche
  | Infragravity | Spike | Flatline | Gap | ExtremeLevel | AliasedActivity

datatype TideRemovalMethod = harmonic | lowpass

text \<open>
  A template literal is kept as the list of its pieces: literal text, a number printed
  by default (\<^verbatim>\<open>${x}\<close>) and a number printed by \<^verbatim>\<open>x.toFixed(d)\<close>. The decimal
  rendering itself is not computed.
\<close>

datatype frag = Lit string | Num real | Fixed real nat

type_synonym template = "frag list"

text \<open>The values of the \<^verbatim>\<open>properties\<close> bag of an event: numbers and strings.\<close>

datatype prop_value = PNum real | PStr string

record DetectedEvent =
  id_e :: template
  type_e :: EventType
  label :: template
  startTime :: int
  endTime :: "int option"
  confidence :: Confidence
  amplitude :: "real option"
  period :: "real option"
  explanation :: template
  peak :: "int option"
  properties :: "(string \<times> prop_value) list"

record AnalysisConfig =
  tideRemovalMethod :: TideRemovalMethod
  extremeThreshold :: real
  confidenceThreshold :: Confidence
  startTime_cfg :: "int option"
  endTime_cfg :: "int option"

record ProcessedData =
  original :: "DataPoint list"
  detrended :: "DataPoint list"
  residuals :: "DataPoint list"
  tidal :: "DataPoint list"

record SpectralAnalysis =
  frequencies :: "real list"
  powers :: "real list"
  dominantFrequency :: real
  dominantPeriod :: real

record PoseidonAnalysisEngine =
  data :: "DataPoint list"
  config :: AnalysisConfig

section \<open>Construction and preprocessing\<close>

text \<open>
  The constructor sorts the samples by timestamp. \<^verbatim>\<open>Array.prototype.sort\<close> is stable,
  as is \<^const>\<open>sort_key\<close>.
\<close>

definition constructor :: "DataPoint list \<Rightarrow> AnalysisConfig \<Rightarrow> PoseidonAnalysisEngine" where
  "constructor d c = \<lparr> data = sort_key timestamp d, config = c \<rparr>"

text \<open>
  \<^verbatim>\<open>startTime?.getTime() || 0\<close> and \<^verbatim>\<open>endTime?.getTime() || Infinity\<close>: a missing
  bound and a bound at 0 ms both fall to the default; \<open>None\<close> stands for \<^verbatim>\<open>Infinity\<close>.
\<close>

definition filterDataByTimeRange :: "PoseidonAnalysisEngine \<Rightarrow> DataPoint list" where
  "filterDataByTimeRange e =
     (if startTime_cfg (config e) = None \<and> endTime_cfg (config e) = None then data e
      else filter (\<lambda>point.
             let ts = timestamp point;
                 start = (case startTime_cfg (config e) of
                            None \<Rightarrow> 0 | Some s \<Rightarrow> if s = 0 then 0 else s);
                 stop = (case endTime_cfg (config e) of
                           None \<Rightarrow> None | Some t \<Rightarrow> if t = 0 then None else Some t)
             in ts \<ge> start \<and> (case stop of None \<Rightarrow> True | Some t \<Rightarrow> ts \<le> t))
           (data e))"

text \<open>\<^verbatim>\<open>xs.slice(start, stop)\<close> for \<open>0 \<le> start\<close>.\<close>

definition slice :: "nat \<Rightarrow> nat \<Rightarrow> 'a list \<Rightarrow> 'a list" where
  "slice start stop xs = take (stop - start) (drop start xs)"

text \<open>\<^verbatim>\<open>xs.reduce((sum, val) => sum + val, 0)\<close>.\<close>

definition reduce_sum :: "real list \<Rightarrow> real" where
  "reduce_sum xs = foldl (\<lambda>sum val. sum + val) 0 xs"

text \<open>
  Moving median over 5 samples. \<^verbatim>\<open>Math.max(0, index - 2)\<close> is the truncating
  subtraction of \<^typ>\<open>nat\<close>.
\<close>

definition smoothData :: "DataPoint list \<Rightarrow> DataPoint list" where
  "smoothData d =
     map (\<lambda>index.
            let windowSize = (5::nat);
                start = index - windowSize div 2;
                stop = min (length d) (index + windowSize div 2 + 1);
                window = sort (map seaLevel (slice start stop d));
                median = window ! (length window div 2)
            in (d ! index)\<lparr> seaLevel := median \<rparr>)
         [0..<length d]"

subsection \<open>Gap filling (fillGaps)\<close>

definition expectedInterval :: int where
  "expectedInterval = 60000"

text \<open>\<^verbatim>\<open>result.splice(pos, 0, x)\<close>: insert \<open>x\<close> before position \<open>pos\<close>.\<close>

definition splice_in :: "nat \<Rightarrow> 'a \<Rightarrow> 'a list \<Rightarrow> 'a list" where
  "splice_in pos x xs = take pos xs @ x # drop pos xs"

text \<open>
  The inner loop over \<open>j = 1..steps\<close>; it reads \<^verbatim>\<open>result[i-1]\<close> from the array it
  is splicing into.
\<close>

definition fill_step :: "nat \<Rightarrow> nat \<Rightarrow> real \<Rightarrow> DataPoint list \<Rightarrow> nat \<Rightarrow> DataPoint list" where
  "fill_step i steps levelDiff result j =
     (let newTimestamp = timestamp (result ! (i - 1)) + int j * expectedInterval;
          newLevel = seaLevel (result ! (i - 1)) + (levelDiff * real j / real (steps + 1))
      in splice_in (i - 1 + j)
           \<lparr> timestamp = newTimestamp, seaLevel = newLevel, originalIndex = - 1 \<rparr> result)"

definition fill_inner :: "nat \<Rightarrow> nat \<Rightarrow> real \<Rightarrow> DataPoint list \<Rightarrow> DataPoint list" where
  "fill_inner i steps levelDiff result = foldl (fill_step i steps levelDiff) result [1..<steps + 1]"

text \<open>
  The outer loop at index \<open>i\<close> over the growing array. \<^verbatim>\<open>Math.floor(timeDiff /
  expectedInterval)\<close> is integer division (the difference is positive there).
\<close>

function fillGaps_loop :: "nat \<Rightarrow> DataPoint list \<Rightarrow> DataPoint list" where
  "fillGaps_loop i result =
     (if i < length result then
        (let timeDiff = timestamp (result ! i) - timestamp (result ! (i - 1)) in
         if timeDiff > expectedInterval * 2 then
           (let steps = nat (timeDiff div expectedInterval - 1);
                levelDiff = seaLevel (result ! i) - seaLevel (result ! (i - 1))
            in fillGaps_loop (i + steps + 1) (fill_inner i steps levelDiff result))
         else fillGaps_loop (i + 1) result)
      else result)"
  by pat_completeness auto
termination
proof (relation "measure (\<lambda>(i, result). length result - i)")
  show "wf (measure (\<lambda>(i, result). length result - i))"
    by simp
next
  fix i :: nat and result :: "DataPoint list" and timeDiff :: int and steps :: nat
    and levelDiff :: real
  assume i: "i < length result"
  have len: "length (foldl (fill_step i steps levelDiff) r js) = length r + length js"
    for r js
    by (induction js arbitrary: r) (simp_all add: fill_step_def splice_in_def Let_def)
  have "length (fill_inner i steps levelDiff result) = length result + steps"
    unfolding fill_inner_def len by simp
  then show "((i + steps + 1, fill_inner i steps levelDiff result), (i, result))
          \<in> measure (\<lambda>(i, result). length result - i)"
    using i by simp
next
  fix i :: nat and result :: "DataPoint list" and timeDiff :: int
  assume "i < length result"
  then show "((i + 1, result), (i, result)) \<in> measure (\<lambda>(i, result). length result - i)"
    by simp
qed

declare fillGaps_loop.simps [simp del]

definition fillGaps :: "DataPoint list \<Rightarrow> DataPoint list" where
  "fillGaps d = fillGaps_loop 1 d"

text \<open>
  The gap filler as the specification words it: between two consecutive samples more
  than two intervals apart, \<open>floor(delta / interval) - 1\<close> samples at interval spacing,
  each level on the straight line between the two bounding samples at the time of the
  inserted sample, \<open>originalIndex = -1\<close>; nothing otherwise.
\<close>

definition line_level :: "DataPoint \<Rightarrow> DataPoint \<Rightarrow> int \<Rightarrow> real" where
  "line_level x y t =
     seaLevel x
     + (seaLevel y - seaLevel x) * real_of_int (t - timestamp x)
         / real_of_int (timestamp y - timestamp x)"

definition inserted_samples_spec :: "DataPoint \<Rightarrow> DataPoint \<Rightarrow> DataPoint list" where
  "inserted_samples_spec x y =
     (let delta = timestamp y - timestamp x in
      if delta > 2 * expectedInterval then
        map (\<lambda>j. \<lparr> timestamp = timestamp x + int j * expectedInterval,
                   seaLevel = line_level x y (timestamp x + int j * expectedInterval),
                   originalIndex = - 1 \<rparr>)
            [1..<nat (delta div expectedInterval)]
      else [])"

fun gap_fill_spec :: "DataPoint list \<Rightarrow> DataPoint list" where
  "gap_fill_spec [] = []"
| "gap_fill_spec [x] = [x]"
| "gap_fill_spec (x # y # rest) = x # inserted_samples_spec x y @ gap_fill_spec (y # rest)"

text \<open>
  The gap filler with the levels interpolated by position instead: the \<open>j\<close>-th of the
  \<open>n\<close> samples inserted between two samples has the level \<open>j / (n + 1)\<close> of the way from
  the left level to the right one, where \<open>n + 1 = floor(delta / interval)\<close>.
\<close>

definition inserted_by_position :: "DataPoint \<Rightarrow> DataPoint \<Rightarrow> DataPoint list" where
  "inserted_by_position x y =
     (let delta = timestamp y - timestamp x in
      if delta > 2 * expectedInterval then
        map (\<lambda>j. \<lparr> timestamp = timestamp x + int j * expectedInterval,
                   seaLevel = seaLevel x
                     + (seaLevel y - seaLevel x) * real j
                         / real_of_int (delta div expectedInterval),
                   originalIndex = - 1 \<rparr>)
            [1..<nat (delta div expectedInterval)]
      else [])"

fun gap_fill_by_position :: "DataPoint list \<Rightarrow> DataPoint list" where
  "gap_fill_by_position [] = []"
| "gap_fill_by_position [x] = [x]"
| "gap_fill_by_position (x # y # rest) = x # inserted_by_position x y @ gap_fill_by_position (y # rest)"

section \<open>Tidal separation, detrending\<close>

definition estimateAmplitude :: "real list \<Rightarrow> real list \<Rightarrow> real \<Rightarrow> real" where
  "estimateAmplitude vals times_h omega =
     (case foldl (\<lambda>(sumCos, sumSin) i.
                    (sumCos + vals ! i * cos (omega * times_h ! i),
                     sumSin + vals ! i * sin (omega * times_h ! i)))
                 (0, 0) [0..<length vals] of
        (sumCos, sumSin) \<Rightarrow>
          sqrt (sumCos * sumCos + sumSin * sumSin) / (real (length vals) / 2))"

definition harmonicTidalFit :: "DataPoint list \<Rightarrow> DataPoint list" where
  "harmonicTidalFit d =
     (let periods = [12.42, 12.0, 23.93, 25.82];
          vals = map seaLevel d;
          times_h = map (\<lambda>p. real_of_int (timestamp p) / (1000 * 3600)) d;
          mean = reduce_sum vals / real (length vals)
      in map (\<lambda>i.
                let tidalValue =
                      foldl (\<lambda>tidalValue period.
                               let omega = 2 * pi / period;
                                   amplitude = estimateAmplitude vals times_h omega
                               in tidalValue + amplitude * cos (omega * times_h ! i))
                            mean periods
                in (d ! i)\<lparr> seaLevel := tidalValue \<rparr>)
             [0..<length d])"

definition lowpassTidalFilter :: "DataPoint list \<Rightarrow> DataPoint list" where
  "lowpassTidalFilter d =
     (let windowHours = (4::nat);
          windowSize = windowHours * 60
      in map (\<lambda>index.
                let start = index - windowSize;
                    stop = min (length d) (index + windowSize + 1);
                    window = slice start stop d;
                    sum = foldl (\<lambda>acc p. acc + seaLevel p) 0 window;
                    tidalLevel = sum / real (length window)
                in (d ! index)\<lparr> seaLevel := tidalLevel \<rparr>)
             [0..<length d])"

definition extractTidalComponent :: "AnalysisConfig \<Rightarrow> DataPoint list \<Rightarrow> DataPoint list" where
  "extractTidalComponent cfg d =
     (if tideRemovalMethod cfg = harmonic then harmonicTidalFit d else lowpassTidalFilter d)"

text \<open>\<^verbatim>\<open>tidal[index]?.seaLevel || 0\<close>: an index past the end of \<open>tidal\<close> counts as 0.\<close>

definition detrendData :: "DataPoint list \<Rightarrow> DataPoint list \<Rightarrow> DataPoint list" where
  "detrendData orig tid =
     map (\<lambda>index.
            let point = orig ! index
            in point\<lparr> seaLevel :=
                 seaLevel point - (if index < length tid then seaLevel (tid ! index) else 0) \<rparr>)
         [0..<length orig]"

definition calculateResiduals :: "DataPoint list \<Rightarrow> DataPoint list \<Rightarrow> DataPoint list" where
  "calculateResiduals orig tid = detrendData orig tid"

section \<open>Tidal-phase detector (detectTidalPhases)\<close>

definition tide_threshold :: real where
  "tide_threshold = 0.02"

text \<open>The events pushed by the loop body at index \<open>i\<close>, in the order of the three checks.\<close>

definition tidal_step :: "DataPoint list \<Rightarrow> nat \<Rightarrow> DetectedEvent list" where
  "tidal_step tid i =
     (let prev = tid ! (i - 1);
          curr = tid ! i;
          next = tid ! (i + 1);
          prevSlope = seaLevel curr - seaLevel prev;
          nextSlope = seaLevel next - seaLevel curr
      in (if prevSlope > tide_threshold \<and> nextSlope < - tide_threshold then
            [\<lparr> id_e = [Lit ''high-tide-'', Num (real i)],
               type_e = HighTide,
               label = [Lit ''High Tide ('', Fixed (seaLevel curr) 3, Lit '' m)''],
               startTime = timestamp curr,
               endTime = None,
               confidence = High,
               amplitude = Some (seaLevel curr),
               period = None,
               explanation = [Lit ''Peak detected with incoming slope '', Fixed prevSlope 3,
                              Lit '' m/min and outgoing slope '', Fixed nextSlope 3,
                              Lit '' m/min''],
               peak = None,
               properties = [(''level'', PNum (seaLevel curr)), (''slope_in'', PNum prevSlope),
                             (''slope_out'', PNum nextSlope)] \<rparr>]
          else [])
       @ (if prevSlope < - tide_threshold \<and> nextSlope > tide_threshold then
            [\<lparr> id_e = [Lit ''low-tide-'', Num (real i)],
               type_e = LowTide,
               label = [Lit ''Low Tide ('', Fixed (seaLevel curr) 3, Lit '' m)''],
               startTime = timestamp curr,
               endTime = None,
               confidence = High,
               amplitude = Some (seaLevel curr),
               period = None,
               explanation = [Lit ''Trough detected with incoming slope '', Fixed prevSlope 3,
                              Lit '' m/min and outgoing slope '', Fixed nextSlope 3,
                              Lit '' m/min''],
               peak = None,
               properties = [(''level'', PNum (seaLevel curr)), (''slope_in'', PNum prevSlope),
                             (''slope_out'', PNum nextSlope)] \<rparr>]
          else [])
       @ (if \<bar>prevSlope\<bar> > tide_threshold then
            (let rising = prevSlope > 0;
                 conf = (if \<bar>prevSlope\<bar> > tide_threshold * 2 then High else Medium)
             in [\<lparr> id_e = [Lit (if rising then ''rising-tide'' else ''falling-tide''),
                             Lit ''-'', Num (real i)],
                    type_e = (if rising then RisingTide else FallingTide),
                    label = [Lit (if rising then ''Rising Tide'' else ''Falling Tide''),
                             Lit '' ('', Fixed \<bar>prevSlope\<bar> 3, Lit '' m/min)''],
                    startTime = timestamp prev,
                    endTime = Some (timestamp curr),
                    confidence = conf,
                    amplitude = None,
                    period = None,
                    explanation = [Lit ''Tidal '',
                                   Lit (if rising then ''rising tide'' else ''falling tide''),
                                   Lit '' detected with slope '', Fixed prevSlope 4,
                                   Lit '' m/min''],
                    peak = None,
                    properties = [(''slope'', PNum prevSlope)] \<rparr>])
          else []))"

text \<open>
  \<^verbatim>\<open>for (let i = 1; i < tidal.length - 1; i++)\<close>, each iteration pushing its events.
  The first parameter (the gap-filled series) is not read by the source either.
\<close>

definition detectTidalPhases :: "DataPoint list \<Rightarrow> DataPoint list \<Rightarrow> DetectedEvent list" where
  "detectTidalPhases d tid =
     foldl (\<lambda>events i. events @ tidal_step tid i) [] [1..<length tid - 1]"

section \<open>Storm-surge detector (detectStormSurges)\<close>

definition surgeThreshold :: real where
  "surgeThreshold = 0.15"

definition sustainedDuration :: nat where
  "sustainedDuration = 60"

text \<open>
  The loop variables \<^verbatim>\<open>surgeStart\<close>, \<^verbatim>\<open>maxSurge\<close>, \<^verbatim>\<open>maxSurgeTime\<close> and the
  \<^verbatim>\<open>events\<close> array, threaded through the iterations.
\<close>

type_synonym surge_state = "nat option \<times> real \<times> int option \<times> DetectedEvent list"

definition surge_event ::
  "DataPoint list \<Rightarrow> nat \<Rightarrow> nat \<Rightarrow> real \<Rightarrow> int option \<Rightarrow> DetectedEvent" where
  "surge_event rs surgeStart i maxSurge maxSurgeTime =
     (let duration = i - surgeStart;
          conf = (if maxSurge > surgeThreshold * 2 then High else Medium)
      in \<lparr> id_e = [Lit ''storm-surge-'', Num (real surgeStart)],
           type_e = StormSurge,
           label = [Lit ''Storm Surge ('', Fixed maxSurge 3, Lit '' m peak)''],
           startTime = timestamp (rs ! surgeStart),
           endTime = Some (timestamp (rs ! (i - 1))),
           confidence = conf,
           amplitude = Some maxSurge,
           period = None,
           explanation = [Lit ''Sustained surge detected with '', Fixed maxSurge 3,
                          Lit '' m peak amplitude over '', Num (real duration),
                          Lit '' minutes''],
           peak = maxSurgeTime,
           properties = [(''peak_amplitude'', PNum maxSurge),
                         (''duration_minutes'', PNum (real duration)),
                         (''surge_type'',
                            PStr (if seaLevel (rs ! surgeStart) > 0
                                  then ''positive'' else ''negative''))] \<rparr>)"

text \<open>The body of the \<^verbatim>\<open>for\<close> loop at index \<open>i\<close>.\<close>

definition surge_step :: "DataPoint list \<Rightarrow> surge_state \<Rightarrow> nat \<Rightarrow> surge_state" where
  "surge_step rs st i =
     (case st of (surgeStart, maxSurge, maxSurgeTime, events) \<Rightarrow>
        let level = \<bar>seaLevel (rs ! i)\<bar> in
        if level > surgeThreshold then
          (case surgeStart of
             None \<Rightarrow> (Some i, level, Some (timestamp (rs ! i)), events)
           | Some s \<Rightarrow>
               if level > maxSurge
               then (surgeStart, level, Some (timestamp (rs ! i)), events)
               else st)
        else
          (case surgeStart of
             None \<Rightarrow> st
           | Some s \<Rightarrow>
               (None, 0, None,
                if i - s \<ge> sustainedDuration
                then events @ [surge_event rs s i maxSurge maxSurgeTime]
                else events)))"

definition surge_loop :: "DataPoint list \<Rightarrow> surge_state" where
  "surge_loop rs = foldl (surge_step rs) (None, 0, None, []) [0..<length rs]"

definition detectStormSurges :: "DataPoint list \<Rightarrow> DetectedEvent list" where
  "detectStormSurges rs = (case surge_loop rs of (_, _, _, events) \<Rightarrow> events)"

section \<open>Spectral analysis (computeSpectralAnalysis and helpers)\<close>

text \<open>
  The bin loop \<^verbatim>\<open>for (let i = 0; i < n / 2; i++)\<close>: \<open>i\<close> is an integer counter and
  \<^verbatim>\<open>n / 2\<close> a floating-point quotient, so the comparison is made in the reals.
\<close>

function spectral_bins :: "nat \<Rightarrow> nat \<Rightarrow> nat list" where
  "spectral_bins i n = (if real i < real n / 2 then i # spectral_bins (i + 1) n else [])"
  by pat_completeness auto
termination
  by (relation "measure (\<lambda>(i, n). n - i)") auto

declare spectral_bins.simps [simp del]

text \<open>The inner loop over \<open>j\<close> and \<^verbatim>\<open>Math.abs(power) / n\<close>.\<close>

definition bin_power :: "real list \<Rightarrow> real \<Rightarrow> real" where
  "bin_power vals freq =
     (let n = length vals;
          power = foldl (\<lambda>power j. power + (vals ! j * cos (2 * pi * freq * real j)
                                              + vals ! j * sin (2 * pi * freq * real j)))
                        0 [0..<n]
      in \<bar>power\<bar> / real n)"

text \<open>The body of \<^verbatim>\<open>powers.forEach\<close> on the pair \<open>(maxPower, dominantFreq)\<close>.\<close>

definition dominant_step :: "real list \<Rightarrow> real list \<Rightarrow> real \<times> real \<Rightarrow> nat \<Rightarrow> real \<times> real" where
  "dominant_step pws freqs st i =
     (case st of (maxPower, dominantFreq) \<Rightarrow>
        if pws ! i > maxPower \<and> freqs ! i > 0 then (pws ! i, freqs ! i)
        else (maxPower, dominantFreq))"

definition computeSpectralAnalysis :: "DataPoint list \<Rightarrow> SpectralAnalysis" where
  "computeSpectralAnalysis d =
     (let vals = map seaLevel d;
          n = length vals;
          maxFreq = 0.5;
          freqStep = maxFreq / (real n / 2);
          bins = spectral_bins 0 n;
          freqs = map (\<lambda>i. real i * freqStep) bins;
          pws = map (\<lambda>i. bin_power vals (real i * freqStep)) bins;
          dominantFreq = snd (foldl (dominant_step pws freqs) (0, 0) [0..<length pws])
      in \<lparr> frequencies = freqs,
           powers = pws,
           dominantFrequency = dominantFreq,
           dominantPeriod = (if dominantFreq > 0 then 1 / dominantFreq else 0) \<rparr>)"

definition calculateWindowEnergy :: "DataPoint list \<Rightarrow> real \<Rightarrow> real" where
  "calculateWindowEnergy window frequency =
     (let vals = map seaLevel window;
          energy = foldl (\<lambda>energy i. energy + (vals ! i * cos (2 * pi * frequency * real i)
                                                + vals ! i * sin (2 * pi * frequency * real i)))
                         0 [0..<length vals]
      in \<bar>energy\<bar> / real (length vals))"

definition calculateEnergyThreshold :: "DataPoint list \<Rightarrow> real \<Rightarrow> real" where
  "calculateEnergyThreshold d frequency = calculateWindowEnergy d frequency * 0.5"

text \<open>
  \<^verbatim>\<open>for (let i = 0; i < data.length - windowSize; i += Math.floor(windowSize / 2))\<close>;
  the window size is at least 10, so the stride is at least 5.
\<close>

function burst_loop :: "DataPoint list \<Rightarrow> real \<Rightarrow> real \<Rightarrow> nat \<Rightarrow> (int \<times> int) list" where
  "burst_loop d frequency prd i =
     (let windowSize = max 10 (nat \<lfloor>prd * 2\<rfloor>) in
      if int i < int (length d) - int windowSize then
        (let window = slice i (i + windowSize) d;
             energy = calculateWindowEnergy window frequency
         in (if energy > calculateEnergyThreshold d frequency
             then [(timestamp (window ! 0), timestamp (window ! (length window - 1)))]
             else [])
            @ burst_loop d frequency prd (i + windowSize div 2))
      else [])"
  by pat_completeness auto
termination
  by (relation "measure (\<lambda>(d, frequency, prd, i). length d - i)") auto

declare burst_loop.simps [simp del]

definition findEnergyBursts :: "DataPoint list \<Rightarrow> real \<Rightarrow> real \<Rightarrow> (int \<times> int) list" where
  "findEnergyBursts d frequency prd = burst_loop d frequency prd 0"

definition calculateSpectralThreshold :: "real list \<Rightarrow> real" where
  "calculateSpectralThreshold pws =
     (let mean = reduce_sum pws / real (length pws);
          variance = foldl (\<lambda>sum p. sum + (p - mean) ^ 2) 0 pws / real (length pws)
      in mean + sqrt variance)"

definition calculateMovingVariance :: "DataPoint list \<Rightarrow> nat \<Rightarrow> real list" where
  "calculateMovingVariance d windowSize =
     map (\<lambda>i.
            let window = map seaLevel (slice i (i + windowSize) d);
                mean = reduce_sum window / real (length window);
                var_val = foldl (\<lambda>sum val. sum + (val - mean) ^ 2) 0 window
                            / real (length window)
            in var_val)
         [0..<length d - windowSize]"

definition calculateVarianceThreshold :: "real list \<Rightarrow> real" where
  "calculateVarianceThreshold variance =
     (let mean = reduce_sum variance / real (length variance);
          std = sqrt (foldl (\<lambda>sum v. sum + (v - mean) ^ 2) 0 variance
                        / real (length variance))
      in mean + 2 * std)"

section \<open>Seiche and infragravity detectors\<close>

definition seiche_step :: "DataPoint list \<Rightarrow> SpectralAnalysis \<Rightarrow> nat \<Rightarrow> DetectedEvent list" where
  "seiche_step rs spectral i =
     (let seicheFreqMin = 1 / 30;
          seicheFreqMax = 1 / 5;
          freq = frequencies spectral ! i
      in if freq \<ge> seicheFreqMin \<and> freq \<le> seicheFreqMax then
           (let power = powers spectral ! i;
                threshold = calculateSpectralThreshold (powers spectral) * 2
            in if power > threshold then
                 (let prd = 1 / freq;
                      conf = (if power > threshold * 1.5 then High else Medium);
                      energyPeaks = findEnergyBursts rs freq prd
                  in map (\<lambda>index.
                            \<lparr> id_e = [Lit ''seiche-'', Fixed freq 4, Lit ''-'', Num (real index)],
                              type_e = Seiche,
                              label = [Lit ''Seiche Oscillation ('', Fixed prd 1,
                                       Lit '' min period)''],
                              startTime = fst (energyPeaks ! index),
                              endTime = Some (snd (energyPeaks ! index)),
                              confidence = conf,
                              amplitude = None,
                              period = Some prd,
                              explanation = [Lit ''Seiche detected with dominant period '',
                                             Fixed prd 1,
                                             Lit '' minutes and spectral energy peak at '',
                                             Fixed freq 4, Lit '' cyc/min''],
                              peak = None,
                              properties = [(''frequency'', PNum freq),
                                            (''spectral_power'', PNum power),
                                            (''estimated_period'', PNum prd)] \<rparr>)
                         [0..<length energyPeaks])
               else [])
         else [])"

definition detectSeiches :: "DataPoint list \<Rightarrow> DetectedEvent list" where
  "detectSeiches rs =
     (let spectral = computeSpectralAnalysis rs
      in foldl (\<lambda>events i. events @ seiche_step rs spectral i) []
               [0..<length (frequencies spectral)])"

text \<open>The body of \<^verbatim>\<open>frequencies.forEach\<close> on \<open>(totalIgEnergy, dominantFreq, maxPower)\<close>.\<close>

definition ig_step :: "SpectralAnalysis \<Rightarrow> real \<times> real \<times> real \<Rightarrow> nat \<Rightarrow> real \<times> real \<times> real" where
  "ig_step spectral st i =
     (case st of (totalIgEnergy, dominantFreq, maxPower) \<Rightarrow>
        let igFreqMax = 0.5;
            freq = frequencies spectral ! i
        in if freq \<le> igFreqMax \<and> freq > 0 then
             (let power = powers spectral ! i in
              if power > maxPower then (totalIgEnergy + power, freq, power)
              else (totalIgEnergy + power, dominantFreq, maxPower))
           else st)"

definition detectInfragravityWaves :: "DataPoint list \<Rightarrow> DetectedEvent list" where
  "detectInfragravityWaves rs =
     (let spectral = computeSpectralAnalysis rs;
          igFreqMax = 0.5
      in case foldl (ig_step spectral) (0, 0, 0) [0..<length (frequencies spectral)] of
           (totalIgEnergy, dominantFreq, maxPower) \<Rightarrow>
             let threshold = calculateSpectralThreshold (powers spectral) in
             if totalIgEnergy > threshold then
               (let dominantPeriod = 1 / dominantFreq;
                    conf = (if totalIgEnergy > threshold * 2 then High else Medium)
                in [\<lparr> id_e = [Lit ''infragravity-waves''],
                       type_e = Infragravity,
                       label = [Lit ''Infragravity Activity ('', Fixed dominantPeriod 1,
                                Lit '' min dominant period)''],
                       startTime = timestamp (rs ! 0),
                       endTime = Some (timestamp (rs ! (length rs - 1))),
                       confidence = conf,
                       amplitude = None,
                       period = Some dominantPeriod,
                       explanation = [Lit ''Infragravity wave activity detected with dominant period '',
                                      Fixed dominantPeriod 1,
                                      Lit '' minutes and total band energy '',
                                      Fixed totalIgEnergy 2],
                       peak = None,
                       properties = [(''total_energy'', PNum totalIgEnergy),
                                     (''dominant_frequency'', PNum dominantFreq),
                                     (''band_max_freq'', PNum igFreqMax)] \<rparr>])
             else [])"

section \<open>Data-artifact detector (detectDataArtifacts)\<close>

definition spike_step :: "DataPoint list \<Rightarrow> nat \<Rightarrow> DetectedEvent list" where
  "spike_step d i =
     (let spikeThreshold = 0.5;
          change = \<bar>seaLevel (d ! i) - seaLevel (d ! (i - 1))\<bar>
      in if change > spikeThreshold then
           [\<lparr> id_e = [Lit ''spike-'', Num (real i)],
              type_e = Spike,
              label = [Lit ''Data Spike ('', Fixed change 3, Lit '' m jump)''],
              startTime = timestamp (d ! i),
              endTime = None,
              confidence = High,
              amplitude = Some change,
              period = None,
              explanation = [Lit ''Sudden level change of '', Fixed change 3,
                             Lit '' m detected between consecutive measurements''],
              peak = None,
              properties = [(''magnitude'', PNum change),
                            (''previous_level'', PNum (seaLevel (d ! (i - 1)))),
                            (''current_level'', PNum (seaLevel (d ! i)))] \<rparr>]
         else [])"

text \<open>
  The flatline loop on \<open>(flatlineStart, flatlineValue, events)\<close>; the events start
  from those the spike loop pushed.
\<close>

definition flatline_step ::
  "DataPoint list \<Rightarrow> nat option \<times> real option \<times> DetectedEvent list \<Rightarrow> nat
     \<Rightarrow> nat option \<times> real option \<times> DetectedEvent list" where
  "flatline_step d st i =
     (case st of (flatlineStart, flatlineValue, events) \<Rightarrow>
        let flatlineThreshold = 0.001;
            minFlatlineDuration = (30::nat);
            change = \<bar>seaLevel (d ! i) - seaLevel (d ! (i - 1))\<bar>
        in if change \<le> flatlineThreshold then
             (case flatlineStart of
                None \<Rightarrow> (Some (i - 1), Some (seaLevel (d ! (i - 1))), events)
              | Some s \<Rightarrow> st)
           else
             (case flatlineStart of
                None \<Rightarrow> st
              | Some s \<Rightarrow>
                  (let duration = i - s in
                   (None, None,
                    if duration \<ge> minFlatlineDuration then
                      events @
                      [\<lparr> id_e = [Lit ''flatline-'', Num (real s)],
                         type_e = Flatline,
                         label = [Lit ''Data Flatline ('', Num (real duration), Lit '' min at '',
                                  Fixed (the flatlineValue) 3, Lit '' m)''],
                         startTime = timestamp (d ! s),
                         endTime = Some (timestamp (d ! (i - 1))),
                         confidence = High,
                         amplitude = None,
                         period = None,
                         explanation = [Lit ''Constant value '', Fixed (the flatlineValue) 4,
                                        Lit '' m maintained for '', Num (real duration),
                                        Lit '' minutes''],
                         peak = None,
                         properties = [(''constant_value'', PNum (the flatlineValue)),
                                       (''duration_minutes'', PNum (real duration))] \<rparr>]
                    else events))))"

definition detectDataArtifacts :: "DataPoint list \<Rightarrow> DetectedEvent list" where
  "detectDataArtifacts d =
     (let spikes = foldl (\<lambda>events i. events @ spike_step d i) [] [1..<length d]
      in case foldl (flatline_step d) (None, None, spikes) [1..<length d] of
           (_, _, events) \<Rightarrow> events)"

section \<open>Extreme-level detector (detectExtremeLevels)\<close>

text \<open>
  \<^verbatim>\<open>levels.sort((a, b) => a - b)\<close> sorts the fresh array of levels;
  \<^verbatim>\<open>Math.floor(levels.length * 0.01)\<close> is the floor of a real product. On an empty
  series the two percentiles are read out of range, and then never used: the
  \<^verbatim>\<open>forEach\<close> has no iteration.
\<close>

definition extreme_step :: "real \<Rightarrow> real \<Rightarrow> real \<Rightarrow> real \<Rightarrow> DataPoint \<Rightarrow> DetectedEvent list" where
  "extreme_step mean p1 p99 threshold point =
     (let isExtreme = (seaLevel point \<le> p1 \<or> seaLevel point \<ge> p99
                         \<or> \<bar>seaLevel point - mean\<bar> > threshold)
      in if isExtreme then
           (let kind = (if seaLevel point > mean then ''High'' else ''Low'');
                conf = (if \<bar>seaLevel point - mean\<bar> > threshold * 1.5 then High else Medium)
            in [\<lparr> id_e = [Lit ''extreme-'', Num (real_of_int (timestamp point))],
                   type_e = ExtremeLevel,
                   label = [Lit ''Extreme '', Lit kind, Lit '' Level ('',
                            Fixed (seaLevel point) 3, Lit '' m)''],
                   startTime = timestamp point,
                   endTime = None,
                   confidence = conf,
                   amplitude = Some \<bar>seaLevel point - mean\<bar>,
                   period = None,
                   explanation = [Lit ''Level '', Fixed (seaLevel point) 3, Lit '' m exceeds '',
                                  Lit (if conf = High then ''high'' else ''medium''),
                                  Lit '' threshold ('', Num threshold, Lit '' m from mean)''],
                   peak = None,
                   properties = [(''level'', PNum (seaLevel point)),
                                 (''deviation_from_mean'', PNum (seaLevel point - mean)),
                                 (''percentile'',
                                    PStr (if seaLevel point \<le> p1 then ''1st''
                                          else if seaLevel point \<ge> p99 then ''99th''
                                          else ''threshold''))] \<rparr>])
         else [])"

definition detectExtremeLevels :: "AnalysisConfig \<Rightarrow> DataPoint list \<Rightarrow> DetectedEvent list" where
  "detectExtremeLevels cfg d =
     (let levels = map seaLevel d;
          mean = reduce_sum levels / real (length levels);
          sorted_levels = sort levels;
          p1 = sorted_levels ! nat \<lfloor>real (length levels) * 0.01\<rfloor>;
          p99 = sorted_levels ! nat \<lfloor>real (length levels) * 0.99\<rfloor>;
          threshold = extremeThreshold cfg
      in foldl (\<lambda>events point. events @ extreme_step mean p1 p99 threshold point) [] d)"

section \<open>Aliased-activity detector (detectAliasedActivity)\<close>

text \<open>\<^verbatim>\<open>xs.findIndex(pred)\<close>; \<open>None\<close> stands for \<open>-1\<close>.\<close>

fun findIndex :: "('a \<Rightarrow> bool) \<Rightarrow> 'a list \<Rightarrow> nat option" where
  "findIndex pred [] = None"
| "findIndex pred (x # xs) =
     (if pred x then Some 0 else map_option Suc (findIndex pred xs))"

definition detectAliasedActivity :: "DataPoint list \<Rightarrow> DetectedEvent list" where
  "detectAliasedActivity rs =
     (let variance = calculateMovingVariance rs 10;
          spectral = computeSpectralAnalysis rs;
          nyquistFreq = 0.5
      in case findIndex (\<lambda>f. f \<ge> nyquistFreq * 0.9) (frequencies spectral) of
           None \<Rightarrow> []
         | Some nyquistIndex \<Rightarrow>
             (let nyquistPower = powers spectral ! nyquistIndex;
                  meanPower = reduce_sum (powers spectral) / real (length (powers spectral))
              in if nyquistPower > meanPower * 3 then
                   (let highVariancePeriods =
                          map (\<lambda>(v, i).
                                 (timestamp (rs ! i),
                                  timestamp (rs ! min (i + 10) (length rs - 1)),
                                  v))
                            (filter (\<lambda>(v, i). v > calculateVarianceThreshold variance)
                               (map (\<lambda>i. (variance ! i, i)) [0..<length variance]))
                    in map (\<lambda>index.
                              case highVariancePeriods ! index of (start, stop, var) \<Rightarrow>
                                \<lparr> id_e = [Lit ''aliased-'', Num (real index)],
                                  type_e = AliasedActivity,
                                  label = [Lit ''Probable Aliased Waves ('', Fixed var 6,
                                           Lit '' variance)''],
                                  startTime = start,
                                  endTime = Some stop,
                                  confidence = Low,
                                  amplitude = None,
                                  period = None,
                                  explanation = [Lit ''High variance ('', Fixed var 6,
                                                 Lit '') and energy near Nyquist frequency ('',
                                                 Num nyquistFreq,
                                                 Lit '' cyc/min) suggest aliased short-period waves''],
                                  peak = None,
                                  properties = [(''variance'', PNum var),
                                                (''nyquist_power'', PNum nyquistPower),
                                                (''mean_power'', PNum meanPower),
                                                (''power_ratio'', PNum (nyquistPower / meanPower))] \<rparr>)
                           [0..<length highVariancePeriods])
                 else []))"

section \<open>The pipeline (runFullAnalysis)\<close>

definition confidenceLevels :: "Confidence \<Rightarrow> nat" where
  "confidenceLevels c = (case c of Low \<Rightarrow> 0 | Medium \<Rightarrow> 1 | High \<Rightarrow> 2)"

record AnalysisResult =
  processedData :: ProcessedData
  events :: "DetectedEvent list"

text \<open>The decomposition built by the first half of \<^verbatim>\<open>runFullAnalysis\<close>.\<close>

definition decompose :: "PoseidonAnalysisEngine \<Rightarrow> ProcessedData" where
  "decompose e =
     (let filteredData = filterDataByTimeRange e;
          smoothedData = smoothData filteredData;
          gapFilledData = fillGaps smoothedData;
          tidalComponent = extractTidalComponent (config e) gapFilledData;
          detrended_s = detrendData gapFilledData tidalComponent;
          residuals_s = calculateResiduals gapFilledData tidalComponent
      in \<lparr> original = gapFilledData, detrended = detrended_s,
           residuals = residuals_s, tidal = tidalComponent \<rparr>)"

text \<open>The seven detectors, pushed in the order of the source, before the filter.\<close>

definition detect_all :: "PoseidonAnalysisEngine \<Rightarrow> ProcessedData \<Rightarrow> DetectedEvent list" where
  "detect_all e pd =
     detectTidalPhases (original pd) (tidal pd)
     @ detectStormSurges (residuals pd)
     @ detectSeiches (residuals pd)
     @ detectInfragravityWaves (residuals pd)
     @ detectDataArtifacts (original pd)
     @ detectExtremeLevels (config e) (original pd)
     @ detectAliasedActivity (residuals pd)"

definition runFullAnalysis :: "PoseidonAnalysisEngine \<Rightarrow> AnalysisResult" where
  "runFullAnalysis e =
     (let pd = decompose e;
          evs = detect_all e pd;
          filteredEvents =
            filter (\<lambda>event. confidenceLevels (confidence event)
                               \<ge> confidenceLevels (confidenceThreshold (config e))) evs
      in \<lparr> processedData = pd, events = filteredEvents \<rparr>)"

section \<open>Auxiliary notions used in the proofs\<close>

text \<open>
  None of these is part of the engine: they are the loop invariants, the predicates that
  say what a claim says of one event, and the example series at which theorems are
  instantiated.
\<close>

subsection \<open>Storm-surge loop\<close>

text \<open>\<^verbatim>\<open>surgeStart\<close> is an index already visited.\<close>

definition start_below :: "nat \<Rightarrow> surge_state \<Rightarrow> bool" where
  "start_below k st = (case fst st of None \<Rightarrow> True | Some s \<Rightarrow> s < k)"

text \<open>
  An event pushed before index \<open>k\<close>: pushed at some index \<open>i\<close> whose sample is at or below
  the threshold, for a run that started at \<open>s\<close>.
\<close>

definition flushed :: "DataPoint list \<Rightarrow> nat \<Rightarrow> DetectedEvent \<Rightarrow> bool" where
  "flushed rs k e =
     (\<exists>s i m t. e = surge_event rs s i m t \<and> s < i \<and> i < k
                \<and> \<not> surgeThreshold < \<bar>seaLevel (rs ! i)\<bar>)"

text \<open>
  One-minute samples; 90 samples at 0.20 m after one sample at 0, without and with a
  sample at 0 after them.
\<close>

definition sample_at :: "real \<Rightarrow> nat \<Rightarrow> DataPoint" where
  "sample_at v i = \<lparr> timestamp = int i * 60000, seaLevel = v, originalIndex = int i \<rparr>"

definition surge_at_end :: "DataPoint list" where
  "surge_at_end = map (sample_at 0) [0..<1] @ map (sample_at 0.2) [1..<91]"

definition surge_example :: "DataPoint list" where
  "surge_example = surge_at_end @ map (sample_at 0) [91..<92]"

subsection \<open>Pipeline\<close>

definition example_config :: AnalysisConfig where
  "example_config = \<lparr> tideRemovalMethod = lowpass, extremeThreshold = 1,
                       confidenceThreshold = Low, startTime_cfg = None, endTime_cfg = None \<rparr>"

definition gap_example :: "DataPoint list" where
  "gap_example = [\<lparr> timestamp = 0, seaLevel = 1.0, originalIndex = 0 \<rparr>,
                  \<lparr> timestamp = 300000, seaLevel = 1.5, originalIndex = 1 \<rparr>]"

text \<open>The same engine with another confidence threshold.\<close>

definition with_threshold :: "Confidence \<Rightarrow> PoseidonAnalysisEngine \<Rightarrow> PoseidonAnalysisEngine" where
  "with_threshold t e = e\<lparr> config := (config e)\<lparr> confidenceThreshold := t \<rparr> \<rparr>"

subsection \<open>Tidal phases\<close>

text \<open>A High Tide event at sample \<open>i\<close>; a Rising Tide event from sample \<open>i - 1\<close> to \<open>i\<close>.\<close>

definition high_tide_at :: "DataPoint list \<Rightarrow> nat \<Rightarrow> DetectedEvent \<Rightarrow> bool" where
  "high_tide_at tid i h =
     (type_e h = HighTide \<and> confidence h = High
      \<and> id_e h = [Lit ''high-tide-'', Num (real i)]
      \<and> startTime h = timestamp (tid ! i) \<and> endTime h = None
      \<and> amplitude h = Some (seaLevel (tid ! i)))"

definition rising_tide_at :: "DataPoint list \<Rightarrow> nat \<Rightarrow> DetectedEvent \<Rightarrow> bool" where
  "rising_tide_at tid i r =
     (type_e r = RisingTide
      \<and> id_e r = [Lit ''rising-tide'', Lit ''-'', Num (real i)]
      \<and> startTime r = timestamp (tid ! (i - 1)) \<and> endTime r = Some (timestamp (tid ! i))
      \<and> map_of (properties r) ''slope'' = Some (PNum (seaLevel (tid ! i) - seaLevel (tid ! (i - 1)))))"

definition peak_example :: "DataPoint list" where
  "peak_example = [\<lparr> timestamp = 0, seaLevel = 1.0, originalIndex = 0 \<rparr>,
                   \<lparr> timestamp = 60000, seaLevel = 1.1, originalIndex = 1 \<rparr>,
                   \<lparr> timestamp = 120000, seaLevel = 1.0, originalIndex = 2 \<rparr>]"

subsection \<open>Extreme levels\<close>

text \<open>The percentiles and the mean that \<^const>\<open>detectExtremeLevels\<close> computes.\<close>

definition p1_of :: "DataPoint list \<Rightarrow> real" where
  "p1_of d = sort (map seaLevel d) ! nat \<lfloor>real (length d) * 0.01\<rfloor>"

definition p99_of :: "DataPoint list \<Rightarrow> real" where
  "p99_of d = sort (map seaLevel d) ! nat \<lfloor>real (length d) * 0.99\<rfloor>"

definition mean_of :: "DataPoint list \<Rightarrow> real" where
  "mean_of d = reduce_sum (map seaLevel d) / real (length d)"

text \<open>An Extreme Level event for the sample \<open>p\<close>.\<close>

definition extreme_at :: "DataPoint \<Rightarrow> DetectedEvent \<Rightarrow> bool" where
  "extreme_at p e =
     (type_e e = ExtremeLevel
      \<and> id_e e = [Lit ''extreme-'', Num (real_of_int (timestamp p))]
      \<and> startTime e = timestamp p
      \<and> map_of (properties e) ''level'' = Some (PNum (seaLevel p)))"

definition extreme_example :: "DataPoint list" where
  "extreme_example = [\<lparr> timestamp = 0, seaLevel = 1.0, originalIndex = 0 \<rparr>,
                   \<lparr> timestamp = 60000, seaLevel = 1.1, originalIndex = 1 \<rparr>,
                   \<lparr> timestamp = 120000, seaLevel = 1.2, originalIndex = 2 \<rparr>]"

definition huge_threshold_config :: AnalysisConfig where
  "huge_threshold_config = \<lparr> tideRemovalMethod = lowpass, extremeThreshold = 1000,
                       confidenceThreshold = Low, startTime_cfg = None, endTime_cfg = None \<rparr>"

subsection \<open>Gap filling and sorting\<close>

text \<open>The sample that iteration \<open>j\<close> of the inner loop inserts after \<open>x\<close>.\<close>

definition new_sample :: "DataPoint \<Rightarrow> nat \<Rightarrow> real \<Rightarrow> nat \<Rightarrow> DataPoint" where
  "new_sample x steps levelDiff j =
     \<lparr> timestamp = timestamp x + int j * expectedInterval,
       seaLevel = seaLevel x + (levelDiff * real j / real (steps + 1)),
       originalIndex = - 1 \<rparr>"

text \<open>Two samples 2.5 intervals apart.\<close>

definition offgrid_example :: "DataPoint list" where
  "offgrid_example = [\<lparr> timestamp = 60000, seaLevel = 5, originalIndex = 0 \<rparr>,
                      \<lparr> timestamp = 210000, seaLevel = 6, originalIndex = 1 \<rparr>]"

text \<open>Two series that differ in the order of two samples with the same timestamp.\<close>

definition perm_example_a :: "DataPoint list" where
  "perm_example_a = [\<lparr> timestamp = 0, seaLevel = 0, originalIndex = 0 \<rparr>,
                     \<lparr> timestamp = 60000, seaLevel = 10, originalIndex = 1 \<rparr>,
                     \<lparr> timestamp = 120000, seaLevel = 5, originalIndex = 2 \<rparr>,
                     \<lparr> timestamp = 120000, seaLevel = 9, originalIndex = 3 \<rparr>]"

definition perm_example_b :: "DataPoint list" where
  "perm_example_b = [\<lparr> timestamp = 0, seaLevel = 0, originalIndex = 0 \<rparr>,
                     \<lparr> timestamp = 60000, seaLevel = 10, originalIndex = 1 \<rparr>,
                     \<lparr> timestamp = 120000, seaLevel = 9, originalIndex = 3 \<rparr>,
                     \<lparr> timestamp = 120000, seaLevel = 5, originalIndex = 2 \<rparr>]"

subsection \<open>Spectrum\<close>

text \<open>The state of the dominant-frequency loop after the bins below \<open>k\<close>.\<close>

definition dominant_inv :: "real list \<Rightarrow> real list \<Rightarrow> nat \<Rightarrow> real \<times> real \<Rightarrow> bool" where
  "dominant_inv pws freqs k st =
     (case st of (maxPower, dominantFreq) \<Rightarrow>
        (\<forall>j<k. freqs ! j > 0 \<longrightarrow> pws ! j \<le> maxPower)
        \<and> ((maxPower = 0 \<and> dominantFreq = 0)
            \<or> (\<exists>i<k. freqs ! i > 0 \<and> pws ! i = maxPower \<and> dominantFreq = freqs ! i
                       \<and> maxPower > 0
                       \<and> (\<forall>j<i. freqs ! j > 0 \<longrightarrow> pws ! j < maxPower))))"

definition calm_example :: "DataPoint list" where
  "calm_example = [\<lparr> timestamp = 0, seaLevel = 0, originalIndex = 0 \<rparr>,
                   \<lparr> timestamp = 60000, seaLevel = 0, originalIndex = 1 \<rparr>,
                   \<lparr> timestamp = 120000, seaLevel = 0, originalIndex = 2 \<rparr>]"

definition pulse_example :: "DataPoint list" where
  "pulse_example = [\<lparr> timestamp = 0, seaLevel = 1, originalIndex = 0 \<rparr>,
                    \<lparr> timestamp = 60000, seaLevel = 0, originalIndex = 1 \<rparr>,
                    \<lparr> timestamp = 120000, seaLevel = 0, originalIndex = 2 \<rparr>,
                    \<lparr> timestamp = 180000, seaLevel = 0, originalIndex = 3 \<rparr>]"

subsection \<open>Aliased activity\<close>

text \<open>
  The pieces of \<^const>\<open>detectAliasedActivity\<close>, named, as the source computes them: the
  index it calls \<^verbatim>\<open>nyquistIndex\<close>, the mean power, and the indices of the variance
  values above the threshold.
\<close>

definition nyquist_bin :: "DataPoint list \<Rightarrow> nat option" where
  "nyquist_bin rs = findIndex (\<lambda>f. f \<ge> 0.5 * 0.9) (frequencies (computeSpectralAnalysis rs))"

definition mean_power :: "DataPoint list \<Rightarrow> real" where
  "mean_power rs =
     reduce_sum (powers (computeSpectralAnalysis rs))
       / real (length (powers (computeSpectralAnalysis rs)))"

definition hot_windows :: "DataPoint list \<Rightarrow> nat list" where
  "hot_windows rs =
     filter (\<lambda>i. calculateMovingVariance rs 10 ! i
                   > calculateVarianceThreshold (calculateMovingVariance rs 10))
       [0..<length (calculateMovingVariance rs 10)]"

text \<open>
  The statistics as the specification words them, on their own: the mean of a list, its
  (population) variance, the variance of each window of 10 consecutive levels, and the
  start indices of the windows whose variance exceeds the mean plus two standard
  deviations of the variance series.
\<close>

definition mean_spec :: "real list \<Rightarrow> real" where
  "mean_spec xs = sum_list xs / real (length xs)"

definition variance_spec :: "real list \<Rightarrow> real" where
  "variance_spec xs = sum_list (map (\<lambda>x. (x - mean_spec xs) ^ 2) xs) / real (length xs)"

definition moving_variance_spec :: "DataPoint list \<Rightarrow> real list" where
  "moving_variance_spec rs =
     map (\<lambda>i. variance_spec (map (\<lambda>j. seaLevel (rs ! (i + j))) [0..<10]))
         [0..<length rs - 10]"

definition hot_windows_spec :: "DataPoint list \<Rightarrow> nat list" where
  "hot_windows_spec rs =
     filter (\<lambda>i. moving_variance_spec rs ! i
                   > mean_spec (moving_variance_spec rs)
                     + 2 * sqrt (variance_spec (moving_variance_spec rs)))
       [0..<length rs - 10]"

text \<open>An Aliased Activity event, the \<open>n\<close>-th, for the window that starts at \<open>i\<close>.\<close>

definition aliased_at :: "DataPoint list \<Rightarrow> nat \<Rightarrow> nat \<Rightarrow> DetectedEvent \<Rightarrow> bool" where
  "aliased_at rs n i e =
     (type_e e = AliasedActivity \<and> confidence e = Low
      \<and> id_e e = [Lit ''aliased-'', Num (real n)]
      \<and> startTime e = timestamp (rs ! i)
      \<and> endTime e = Some (timestamp (rs ! min (i + 10) (length rs - 1)))
      \<and> map_of (properties e) ''variance'' = Some (PNum (moving_variance_spec rs ! i)))"

text \<open>
  Forty one-minute samples: 1.2, -1, 1, -1 at minutes 0, 10, 20, 30 and 0 elsewhere.
  \<^const>\<open>cos\<close> plus \<^const>\<open>sin\<close> at \<open>m\<close> quarter turns is \<open>quarter m\<close>.
\<close>

definition alias_level :: "nat \<Rightarrow> real" where
  "alias_level j =
     (if j = 0 then 1.2 else if j = 10 then - 1 else if j = 20 then 1
      else if j = 30 then - 1 else 0)"

definition alias_example :: "DataPoint list" where
  "alias_example =
     map (\<lambda>j. \<lparr> timestamp = int j * 60000, seaLevel = alias_level j, originalIndex = int j \<rparr>)
         [0..<40]"

definition quarter :: "nat \<Rightarrow> real" where
  "quarter m = (if m mod 4 < 2 then 1 else - 1)"

section \<open>Properties\<close>

subsection \<open>Storm-surge detector\<close>

lemma surge_step_start_below:
  "start_below i st \<Longrightarrow> start_below (Suc i) (surge_step rs st i)"
  by (cases st) (simp add: surge_step_def start_below_def Let_def split: option.splits)

lemma surge_step_append:
  "i < length pre \<Longrightarrow> start_below i st \<Longrightarrow> surge_step (pre @ run) st i = surge_step pre st i"
proof (cases st)
  case (fields ss ms mt ev)
  assume i: "i < length pre" and sb: "start_below i st"
  have a: "(pre @ run) ! i = pre ! i" using i by (simp add: nth_append)
  have b: "(pre @ run) ! (i - 1) = pre ! (i - 1)" using i by (simp add: nth_append)
  have c: "surge_event (pre @ run) s i ms mt = surge_event pre s i ms mt" if "ss = Some s" for s
    using sb that i fields b by (simp add: surge_event_def start_below_def nth_append)
  show ?thesis
  proof (cases ss)
    case None
    then show ?thesis by (simp add: surge_step_def fields a Let_def)
  next
    case (Some s)
    then show ?thesis using c[OF Some] by (simp add: surge_step_def fields a Let_def)
  qed
qed

lemma surge_prefix:
  "k \<le> length pre \<Longrightarrow>
     foldl (surge_step (pre @ run)) (None, 0, None, []) [0..<k]
       = foldl (surge_step pre) (None, 0, None, []) [0..<k]
     \<and> start_below k (foldl (surge_step pre) (None, 0, None, []) [0..<k])"
proof (induction k)
  case 0
  then show ?case by (simp add: start_below_def)
next
  case (Suc k)
  then show ?case
    by (simp add: surge_step_append surge_step_start_below)
qed

lemma foldl_fixed: "(\<And>i. i \<in> set js \<Longrightarrow> f st i = st) \<Longrightarrow> foldl f st js = st"
  by (induction js) auto

lemma surge_step_events_above:
  "\<bar>seaLevel (rs ! i)\<bar> > surgeThreshold \<Longrightarrow>
     snd (snd (snd (surge_step rs st i))) = snd (snd (snd st))"
  by (cases st) (simp add: surge_step_def Let_def split: option.splits)

lemma surge_fold_events_above:
  "(\<And>i. i \<in> set js \<Longrightarrow> \<bar>seaLevel (rs ! i)\<bar> > surgeThreshold) \<Longrightarrow>
     snd (snd (snd (foldl (surge_step rs) st js))) = snd (snd (snd st))"
proof (induction js arbitrary: st)
  case Nil
  then show ?case by simp
next
  case (Cons j js)
  have "snd (snd (snd (foldl (surge_step rs) (surge_step rs st j) js)))
      = snd (snd (snd (surge_step rs st j)))"
    using Cons.prems by (intro Cons.IH) simp
  also have "\<dots> = snd (snd (snd st))"
    using Cons.prems by (intro surge_step_events_above) simp
  finally show ?case by simp
qed

lemma detect_append_above:
  assumes "\<And>p. p \<in> set run \<Longrightarrow> \<bar>seaLevel p\<bar> > surgeThreshold"
  shows "detectStormSurges (pre @ run) = detectStormSurges pre"
proof -
  let ?n = "length pre"
  have split: "[0..<length (pre @ run)] = [0..<?n] @ [?n..<?n + length run]"
    using upt_add_eq_append[of 0 "length pre" "length run"] by simp
  have above: "\<bar>seaLevel ((pre @ run) ! i)\<bar> > surgeThreshold"
    if "i \<in> set [?n..<?n + length run]" for i
  proof -
    from that have "(pre @ run) ! i = run ! (i - ?n)" "i - ?n < length run"
      by (auto simp: nth_append)
    then show ?thesis using assms[of "run ! (i - ?n)"] by simp
  qed
  have "snd (snd (snd (surge_loop (pre @ run))))
      = snd (snd (snd (foldl (surge_step (pre @ run)) (None, 0, None, []) [0..<?n])))"
    unfolding surge_loop_def split foldl_append
    by (rule surge_fold_events_above) (rule above)
  also have "\<dots> = snd (snd (snd (surge_loop pre)))"
    using surge_prefix[of ?n pre run] by (simp add: surge_loop_def)
  finally show ?thesis
    by (cases "surge_loop (pre @ run)"; cases "surge_loop pre") (simp add: detectStormSurges_def)
qed

lemma surge_step_quiet:
  "\<not> surgeThreshold < \<bar>seaLevel (rs ! i)\<bar> \<Longrightarrow>
     surge_step rs (None, m, t, ev) i = (None, m, t, ev)"
  by (simp add: surge_step_def)

lemma surge_step_hold:
  "surgeThreshold < \<bar>seaLevel (rs ! i)\<bar> \<Longrightarrow> \<not> m < \<bar>seaLevel (rs ! i)\<bar> \<Longrightarrow>
     surge_step rs (Some s, m, t, ev) i = (Some s, m, t, ev)"
  by (simp add: surge_step_def)

lemma surge_single_run:
  assumes lv: "map seaLevel rs = replicate a 0 @ replicate n v @ replicate (Suc b) 0"
    and v: "\<bar>v\<bar> > surgeThreshold" and n: "n \<ge> sustainedDuration"
  shows "detectStormSurges rs = [surge_event rs a (a + n) \<bar>v\<bar> (Some (timestamp (rs ! a)))]"
proof -
  have len: "length rs = a + n + Suc b"
    using arg_cong[OF lv, of length] by simp
  have npos: "0 < n" using n by (simp add: sustainedDuration_def)
  have lvl: "seaLevel (rs ! i) = (replicate a 0 @ replicate n v @ replicate (Suc b) 0) ! i"
    if "i < length rs" for i
    using that nth_map[of i rs seaLevel] lv by simp
  have lo: "seaLevel (rs ! i) = 0" if "i < a" for i
    using that lvl[of i] len by (simp add: nth_append)
  have mid: "seaLevel (rs ! i) = v" if "a \<le> i" "i < a + n" for i
  proof -
    have "i - a < n" "i < length rs" "\<not> i < a" using that len by auto
    then show ?thesis using lvl[of i] by (simp add: nth_append)
  qed
  have hi: "seaLevel (rs ! i) = 0" if "a + n \<le> i" "i < a + n + Suc b" for i
  proof -
    have "\<not> i - a < n" "i < length rs" "\<not> i < a" "i - a - n < Suc b" using that len by auto
    then show ?thesis using lvl[of i] by (simp add: nth_append nth_Cons')
  qed
  have thr: "\<not> surgeThreshold < 0" by (simp add: surgeThreshold_def)
  let ?init = "(None, 0, None, []) :: surge_state"
  let ?run = "(Some a, \<bar>v\<bar>, Some (timestamp (rs ! a)), []) :: surge_state"
  let ?e = "surge_event rs a (a + n) \<bar>v\<bar> (Some (timestamp (rs ! a)))"
  let ?fin = "(None, 0, None, [?e]) :: surge_state"
  have idx: "[0..<length rs] = [0..<a] @ (a # [Suc a..<a + n]) @ ((a + n) # [Suc (a + n)..<a + n + Suc b])"
  proof -
    have "[0..<length rs] = [0..<a] @ [a..<a + n] @ [a + n..<a + n + Suc b]"
      using upt_add_eq_append[of 0 a "n + Suc b"] upt_add_eq_append[of a "a + n" "Suc b"]
      unfolding len by (simp add: add.assoc)
    moreover have "[a..<a + n] = a # [Suc a..<a + n]"
      using npos by (simp add: upt_conv_Cons)
    moreover have "[a + n..<a + n + Suc b] = (a + n) # [Suc (a + n)..<a + n + Suc b]"
      by (simp add: upt_conv_Cons)
    ultimately show ?thesis by simp
  qed
  have p1: "foldl (surge_step rs) ?init [0..<a] = ?init"
  proof (rule foldl_fixed)
    fix i assume "i \<in> set [0..<a]"
    then have "seaLevel (rs ! i) = 0" using lo[of i] by simp
    then show "surge_step rs ?init i = ?init" using thr by (intro surge_step_quiet) simp
  qed
  have p2: "surge_step rs ?init a = ?run"
    using mid[of a] npos v by (simp add: surge_step_def)
  have p3: "foldl (surge_step rs) ?run [Suc a..<a + n] = ?run"
  proof (rule foldl_fixed)
    fix i assume "i \<in> set [Suc a..<a + n]"
    then have "seaLevel (rs ! i) = v" using mid[of i] by simp
    then show "surge_step rs ?run i = ?run" using v by (intro surge_step_hold) simp_all
  qed
  have p4: "surge_step rs ?run (a + n) = ?fin"
    using hi[of "a + n"] n by (simp add: surge_step_def thr)
  have p5: "foldl (surge_step rs) ?fin [Suc (a + n)..<a + n + Suc b] = ?fin"
  proof (rule foldl_fixed)
    fix i assume "i \<in> set [Suc (a + n)..<a + n + Suc b]"
    then have "seaLevel (rs ! i) = 0" using hi[of i] by auto
    then show "surge_step rs ?fin i = ?fin" using thr by (intro surge_step_quiet) simp
  qed
  have "surge_loop rs = ?fin"
    unfolding surge_loop_def idx foldl_append foldl_Cons p1 p2 p3 p4 p5 ..
  then show ?thesis by (simp add: detectStormSurges_def)
qed

lemma flushed_mono: "flushed rs k e \<Longrightarrow> k \<le> k' \<Longrightarrow> flushed rs k' e"
proof -
  assume "flushed rs k e" and le: "k \<le> k'"
  then obtain s i m t where e: "e = surge_event rs s i m t" "s < i" "i < k"
      "\<not> surgeThreshold < \<bar>seaLevel (rs ! i)\<bar>"
    unfolding flushed_def by blast
  have "i < k'" using e(3) le by simp
  then show ?thesis unfolding flushed_def using e by blast
qed

lemma surge_step_flushed:
  assumes sb: "start_below i st"
    and ev: "\<And>e. e \<in> set (snd (snd (snd st))) \<Longrightarrow> flushed rs i e"
    and e': "e' \<in> set (snd (snd (snd (surge_step rs st i))))"
  shows "flushed rs (Suc i) e'"
proof (cases st)
  case (fields ss ms mt ev0)
  show ?thesis
  proof (cases "surgeThreshold < \<bar>seaLevel (rs ! i)\<bar>")
    case True
    then have "snd (snd (snd (surge_step rs st i))) = snd (snd (snd st))"
      by (rule surge_step_events_above)
    then show ?thesis using e' ev flushed_mono[of rs i e' "Suc i"] by simp
  next
    case False
    show ?thesis
    proof (cases ss)
      case None
      then have "surge_step rs st i = st"
        using False fields by (simp add: surge_step_quiet)
      then show ?thesis using e' ev flushed_mono[of rs i e' "Suc i"] by simp
    next
      case (Some s)
      then have "s < i" using sb fields by (simp add: start_below_def)
      have "e' \<in> set ev0 \<or> e' = surge_event rs s i ms mt"
        using e' False fields Some by (auto simp add: surge_step_def split: if_splits)
      then show ?thesis
      proof
        assume "e' \<in> set ev0"
        then show ?thesis using ev[of e'] fields flushed_mono[of rs i e' "Suc i"] by simp
      next
        assume "e' = surge_event rs s i ms mt"
        then show ?thesis using \<open>s < i\<close> False unfolding flushed_def by blast
      qed
    qed
  qed
qed

lemma surge_loop_flushed:
  "start_below k (foldl (surge_step rs) (None, 0, None, []) [0..<k])
   \<and> (\<forall>e \<in> set (snd (snd (snd (foldl (surge_step rs) (None, 0, None, []) [0..<k])))).
         flushed rs k e)"
proof (induction k)
  case 0
  then show ?case by (simp add: start_below_def)
next
  case (Suc k)
  let ?st = "foldl (surge_step rs) (None, 0, None, []) [0..<k]"
  have sb: "start_below k ?st" and ev: "\<And>e. e \<in> set (snd (snd (snd ?st))) \<Longrightarrow> flushed rs k e"
    using Suc.IH by blast+
  have "start_below (Suc k) (surge_step rs ?st k)"
    using sb by (rule surge_step_start_below)
  moreover have "flushed rs (Suc k) e" if "e \<in> set (snd (snd (snd (surge_step rs ?st k))))" for e
    using sb ev that by (rule surge_step_flushed)
  ultimately show ?case by simp
qed

lemma detect_flushed:
  assumes "e \<in> set (detectStormSurges rs)"
  shows "flushed rs (length rs) e"
proof -
  have "detectStormSurges rs = snd (snd (snd (surge_loop rs)))"
    by (cases "surge_loop rs") (simp add: detectStormSurges_def)
  then show ?thesis
    using assms surge_loop_flushed[of "length rs" rs] by (simp add: surge_loop_def)
qed

lemma surge_event_append:
  "s < i \<Longrightarrow> i \<le> length pre \<Longrightarrow> surge_event (pre @ run) s i m t = surge_event pre s i m t"
proof -
  assume "s < i" "i \<le> length pre"
  then have "s < length pre" "i - 1 < length pre" by simp_all
  then show ?thesis by (simp add: surge_event_def nth_append)
qed

lemma sample_levels: "map seaLevel (map (sample_at v) xs) = replicate (length xs) v"
  by (induction xs) (simp_all add: sample_at_def)

lemma surge_example_levels:
  "map seaLevel surge_example = replicate 1 0 @ replicate 90 0.2 @ replicate (Suc 0) 0"
  unfolding surge_example_def surge_at_end_def map_append sample_levels by simp

text \<open>
  Claim C1, as amended. A residual series that is 0 for \<open>a\<close> samples, then 0.20 m for
  90 consecutive samples, then 0 for at least one more sample (the timestamps are
  arbitrary, so 1-minute sampling is a special case) yields exactly one event. It is a
  Storm Surge of \<^emph>\<open>Medium\<close> confidence: the peak 0.20 does not exceed twice the threshold
  0.15. Its \<open>duration_minutes\<close> is 90, its \<open>peak_amplitude\<close> is 0.20, it spans the run,
  and its \<open>peak\<close> is the timestamp of the first sample of the run, the first sample of
  maximum magnitude.
\<close>

theorem storm_surge_single_run:
  assumes "map seaLevel rs = replicate a 0 @ replicate 90 0.2 @ replicate (Suc b) 0"
  shows "\<exists>e. detectStormSurges rs = [e] \<and> type_e e = StormSurge \<and> confidence e = Medium
            \<and> map_of (properties e) ''duration_minutes'' = Some (PNum 90)
            \<and> map_of (properties e) ''peak_amplitude'' = Some (PNum 0.2)
            \<and> peak e = Some (timestamp (rs ! a))
            \<and> startTime e = timestamp (rs ! a)
            \<and> endTime e = Some (timestamp (rs ! (a + 89)))"
proof -
  have "detectStormSurges rs = [surge_event rs a (a + 90) \<bar>0.2\<bar> (Some (timestamp (rs ! a)))]"
    using assms by (rule surge_single_run) (simp_all add: surgeThreshold_def sustainedDuration_def)
  then show ?thesis
    by (simp add: surge_event_def surgeThreshold_def add.commute)
qed

text \<open>The theorem at a series of 92 one-minute samples: the run is at minutes 1 to 90.\<close>

theorem storm_surge_single_run_witness:
  "\<exists>e. detectStormSurges surge_example = [e] \<and> type_e e = StormSurge \<and> confidence e = Medium
            \<and> map_of (properties e) ''duration_minutes'' = Some (PNum 90)
            \<and> map_of (properties e) ''peak_amplitude'' = Some (PNum 0.2)
            \<and> peak e = Some 60000
            \<and> startTime e = 60000
            \<and> endTime e = Some 5400000"
proof -
  have a: "timestamp (surge_example ! 1) = 60000"
    by (simp add: surge_example_def surge_at_end_def nth_append sample_at_def)
  have b: "timestamp (surge_example ! (1 + 89)) = 5400000"
    by (simp add: surge_example_def surge_at_end_def nth_append sample_at_def)
  show ?thesis
    using storm_surge_single_run[of surge_example 1 0, OF surge_example_levels]
    unfolding a b .
qed

text \<open>
  Claim C1 as stated fails on that series: the only event has confidence Medium, not
  High. And when the 90-sample run ends the series (\<^const>\<open>surge_at_end\<close>), there is no
  event at all.
\<close>

theorem storm_surge_high_counterexample:
  "map confidence (detectStormSurges surge_example) = [Medium]
   \<and> detectStormSurges surge_at_end = []"
proof -
  have one: "detectStormSurges surge_example
      = [surge_event surge_example 1 (1 + 90) \<bar>0.2\<bar> (Some (timestamp (surge_example ! 1)))]"
    using surge_example_levels
    by (rule surge_single_run) (simp_all add: surgeThreshold_def sustainedDuration_def)
  have c1: "map confidence (detectStormSurges surge_example) = [Medium]"
    unfolding one by (simp add: surge_event_def surgeThreshold_def)
  have "\<bar>seaLevel x\<bar> > surgeThreshold" if "x \<in> set (map (sample_at 0.2) [1..<91])" for x
    using that by (auto simp: sample_at_def surgeThreshold_def)
  then have "detectStormSurges surge_at_end = detectStormSurges (map (sample_at 0) [0..<1])"
    unfolding surge_at_end_def by (rule detect_append_above)
  also have "\<dots> = []"
    by (simp add: detectStormSurges_def surge_loop_def surge_step_def surgeThreshold_def
        sample_at_def)
  finally show ?thesis using c1 by simp
qed

text \<open>
  Claim C9. When a residual series ends in a run of samples of magnitude above 0.15 m,
  whatever the length of the run, the detector emits exactly the events it emits on the
  series without that run: nothing is emitted for the run that holds the final sample.
  Every event that is emitted was flushed at an index \<open>i\<close> before the run whose sample
  is at or below the threshold.
\<close>

theorem storm_surge_open_run:
  assumes "\<forall>p \<in> set run. \<bar>seaLevel p\<bar> > surgeThreshold"
  shows "detectStormSurges (pre @ run) = detectStormSurges pre
       \<and> (\<forall>e \<in> set (detectStormSurges (pre @ run)).
            \<exists>s i m t. e = surge_event (pre @ run) s i m t \<and> s < i \<and> i < length pre
                      \<and> \<bar>seaLevel (pre ! i)\<bar> \<le> surgeThreshold)"
proof -
  have eq: "detectStormSurges (pre @ run) = detectStormSurges pre"
    using assms by (intro detect_append_above) simp
  have "\<exists>s i m t. e = surge_event (pre @ run) s i m t \<and> s < i \<and> i < length pre
                      \<and> \<bar>seaLevel (pre ! i)\<bar> \<le> surgeThreshold"
    if "e \<in> set (detectStormSurges pre)" for e
  proof -
    from detect_flushed[OF that] obtain s i m t where
      e: "e = surge_event pre s i m t" "s < i" "i < length pre"
         "\<not> surgeThreshold < \<bar>seaLevel (pre ! i)\<bar>"
      unfolding flushed_def by blast
    then have "e = surge_event (pre @ run) s i m t"
      by (simp add: surge_event_append)
    then show ?thesis using e by (intro exI[of _ s] exI[of _ i] exI[of _ m] exI[of _ t]) simp
  qed
  then show ?thesis unfolding eq by blast
qed

text \<open>The theorem at 100 samples held at 0.20 m: a run of 100, and no event.\<close>

theorem storm_surge_open_run_witness:
  "detectStormSurges (replicate 100 \<lparr> timestamp = 0, seaLevel = 0.2, originalIndex = 0 \<rparr>) = []"
proof -
  let ?p = "\<lparr> timestamp = 0, seaLevel = 0.2, originalIndex = 0 \<rparr>"
  have "\<forall>p \<in> set (replicate 100 ?p). \<bar>seaLevel p\<bar> > surgeThreshold"
    by (simp add: surgeThreshold_def)
  from storm_surge_open_run[OF this, of "[]"]
  show ?thesis by (simp add: detectStormSurges_def surge_loop_def)
qed

subsection \<open>Lengths of the decomposition, confidence filter\<close>

lemma foldl_push: "foldl (\<lambda>acc x. acc @ f x) acc xs = acc @ concat (map f xs)"
  by (induction xs arbitrary: acc) simp_all

lemma length_harmonicTidalFit: "length (harmonicTidalFit d) = length d"
  by (simp add: harmonicTidalFit_def Let_def)

lemma length_lowpassTidalFilter: "length (lowpassTidalFilter d) = length d"
  by (simp add: lowpassTidalFilter_def Let_def)

lemma length_extractTidalComponent: "length (extractTidalComponent cfg d) = length d"
  by (simp add: extractTidalComponent_def length_harmonicTidalFit length_lowpassTidalFilter)

lemma length_detrendData: "length (detrendData orig tid) = length orig"
  by (simp add: detrendData_def)

text \<open>
  Claim C2. For every engine (every input series and configuration), the \<open>original\<close>
  series of the decomposition is the gap-filled series, and \<open>detrended\<close>, \<open>residuals\<close>
  and \<open>tidal\<close> have its length. No stage after gap filling changes the length: tidal
  separation by the harmonic fit or by the low-pass filter, detrending (whatever the
  length of the tidal series it is given) and the residual calculation.
\<close>

theorem decomposition_lengths:
  "original (processedData (runFullAnalysis e)) = fillGaps (smoothData (filterDataByTimeRange e))
   \<and> length (detrended (processedData (runFullAnalysis e)))
       = length (original (processedData (runFullAnalysis e)))
   \<and> length (residuals (processedData (runFullAnalysis e)))
       = length (original (processedData (runFullAnalysis e)))
   \<and> length (tidal (processedData (runFullAnalysis e)))
       = length (original (processedData (runFullAnalysis e)))
   \<and> length (harmonicTidalFit d) = length d
   \<and> length (lowpassTidalFilter d) = length d
   \<and> length (extractTidalComponent cfg d) = length d
   \<and> length (detrendData d t) = length d
   \<and> length (calculateResiduals d t) = length d"
  by (simp add: runFullAnalysis_def decompose_def Let_def calculateResiduals_def
      length_harmonicTidalFit length_lowpassTidalFilter length_extractTidalComponent
      length_detrendData)

text \<open>The theorem at two samples five minutes apart, with the low-pass strategy.\<close>

theorem decomposition_lengths_witness:
  "length (detrended (processedData (runFullAnalysis (constructor gap_example example_config))))
     = length (original (processedData (runFullAnalysis (constructor gap_example example_config))))
   \<and> length (residuals (processedData (runFullAnalysis (constructor gap_example example_config))))
     = length (original (processedData (runFullAnalysis (constructor gap_example example_config))))
   \<and> length (tidal (processedData (runFullAnalysis (constructor gap_example example_config))))
     = length (original (processedData (runFullAnalysis (constructor gap_example example_config))))"
  using decomposition_lengths[of "constructor gap_example example_config"] by blast

lemma decompose_threshold:
  "decompose (e\<lparr> config := (config e)\<lparr> confidenceThreshold := t \<rparr> \<rparr>) = decompose e"
  by (simp add: decompose_def filterDataByTimeRange_def extractTidalComponent_def)

lemma detect_all_threshold:
  "detect_all (e\<lparr> config := (config e)\<lparr> confidenceThreshold := t \<rparr> \<rparr>) pd = detect_all e pd"
  by (simp add: detect_all_def detectExtremeLevels_def)

lemma events_with_threshold:
  "events (runFullAnalysis (with_threshold t e))
     = filter (\<lambda>ev. confidenceLevels (confidence ev) \<ge> confidenceLevels t)
         (detect_all e (decompose e))"
  by (simp add: runFullAnalysis_def with_threshold_def decompose_threshold detect_all_threshold
      Let_def)

text \<open>
  Claim C8. The ordinals are Low = 0, Medium = 1, High = 2. The events returned are
  those of the seven detectors, in their order, whose ordinal is at least that of the
  configured threshold. For two thresholds \<open>t\<close> and \<open>t'\<close> with \<open>t\<close> not above \<open>t'\<close>, on the
  same engine otherwise, the events at \<open>t'\<close> are the events at \<open>t\<close> filtered once more,
  so the set at \<open>t\<close> contains the set at \<open>t'\<close>.
\<close>

theorem confidence_filter:
  "confidenceLevels Low = 0 \<and> confidenceLevels Medium = 1 \<and> confidenceLevels High = 2
   \<and> events (runFullAnalysis e)
       = filter (\<lambda>ev. confidenceLevels (confidence ev)
                         \<ge> confidenceLevels (confidenceThreshold (config e)))
           (detect_all e (decompose e))
   \<and> (confidenceLevels t \<le> confidenceLevels t' \<longrightarrow>
        events (runFullAnalysis (with_threshold t' e))
          = filter (\<lambda>ev. confidenceLevels (confidence ev) \<ge> confidenceLevels t')
              (events (runFullAnalysis (with_threshold t e)))
        \<and> set (events (runFullAnalysis (with_threshold t' e)))
            \<subseteq> set (events (runFullAnalysis (with_threshold t e))))"
proof -
  have a: "events (runFullAnalysis e)
       = filter (\<lambda>ev. confidenceLevels (confidence ev)
                         \<ge> confidenceLevels (confidenceThreshold (config e)))
           (detect_all e (decompose e))"
    by (simp add: runFullAnalysis_def Let_def)
  have b: "events (runFullAnalysis (with_threshold t' e))
          = filter (\<lambda>ev. confidenceLevels (confidence ev) \<ge> confidenceLevels t')
              (events (runFullAnalysis (with_threshold t e)))"
    if "confidenceLevels t \<le> confidenceLevels t'"
    unfolding events_with_threshold filter_filter
    by (rule filter_cong) (use that in auto)
  have c: "set (events (runFullAnalysis (with_threshold t' e)))
            \<subseteq> set (events (runFullAnalysis (with_threshold t e)))"
    if "confidenceLevels t \<le> confidenceLevels t'"
    unfolding b[OF that] by auto
  show ?thesis using a b c by (simp add: confidenceLevels_def)
qed

text \<open>The theorem at thresholds Low and Medium on the two-sample series.\<close>

theorem confidence_filter_witness:
  "confidenceLevels Low \<le> confidenceLevels Medium
   \<and> set (events (runFullAnalysis (with_threshold Medium (constructor gap_example example_config))))
       \<subseteq> set (events (runFullAnalysis (with_threshold Low (constructor gap_example example_config))))"
proof -
  have le: "confidenceLevels Low \<le> confidenceLevels Medium"
    by (simp add: confidenceLevels_def)
  show ?thesis
    using confidence_filter[of "constructor gap_example example_config" Low Medium] le by blast
qed

subsection \<open>Tidal-phase detector\<close>

lemma detectTidalPhases_concat:
  "detectTidalPhases d tid = concat (map (tidal_step tid) [1..<length tid - 1])"
  by (simp add: detectTidalPhases_def foldl_push)

lemma tidal_step_peak:
  assumes "seaLevel (tid ! i) - seaLevel (tid ! (i - 1)) > tide_threshold"
    and "seaLevel (tid ! (i + 1)) - seaLevel (tid ! i) < - tide_threshold"
  shows "\<exists>h r. tidal_step tid i = [h, r] \<and> high_tide_at tid i h \<and> rising_tide_at tid i r"
proof -
  have pos: "0 < tide_threshold" by (simp add: tide_threshold_def)
  let ?ps = "seaLevel (tid ! i) - seaLevel (tid ! (i - 1))"
  have a: "\<not> ?ps < - tide_threshold" "\<bar>?ps\<bar> > tide_threshold" "?ps > 0"
    using assms(1) pos by linarith+
  show ?thesis
    using assms a unfolding tidal_step_def Let_def high_tide_at_def rising_tide_at_def
    by simp
qed

text \<open>
  Claim C6. At an interior index \<open>i\<close> of the tidal series whose incoming slope exceeds
  0.02 and whose outgoing slope is below -0.02, the detector emits, one after the other,
  a High-confidence High Tide event at sample \<open>i\<close> and a Rising Tide event spanning
  samples \<open>i - 1\<close> and \<open>i\<close>: the peak check and the phase check both fire.
\<close>

theorem tidal_peak_emits_high_and_rising:
  assumes "1 \<le> i" and "i + 1 < length tid"
    and "seaLevel (tid ! i) - seaLevel (tid ! (i - 1)) > 0.02"
    and "seaLevel (tid ! (i + 1)) - seaLevel (tid ! i) < - 0.02"
  shows "\<exists>before h r after.
           detectTidalPhases d tid = before @ [h, r] @ after
           \<and> high_tide_at tid i h \<and> rising_tide_at tid i r"
proof -
  obtain h r where hr: "tidal_step tid i = [h, r]" "high_tide_at tid i h" "rising_tide_at tid i r"
    using tidal_step_peak[of tid i] assms(3,4) unfolding tide_threshold_def by blast
  have i: "i \<in> set [1..<length tid - 1]" using assms(1,2) by auto
  then obtain ys zs where split: "[1..<length tid - 1] = ys @ i # zs"
    by (meson split_list)
  have "detectTidalPhases d tid
      = concat (map (tidal_step tid) ys) @ [h, r] @ concat (map (tidal_step tid) zs)"
    unfolding detectTidalPhases_concat split by (simp add: hr(1))
  then show ?thesis using hr(2,3) by blast
qed

text \<open>The theorem at the three levels 1.0, 1.1, 1.0.\<close>

theorem tidal_peak_emits_high_and_rising_witness:
  "\<exists>before h r after.
     detectTidalPhases peak_example peak_example = before @ [h, r] @ after
     \<and> high_tide_at peak_example 1 h \<and> rising_tide_at peak_example 1 r"
  using tidal_peak_emits_high_and_rising[of 1 peak_example peak_example]
  by (simp add: peak_example_def)

subsection \<open>Extreme-level detector\<close>

lemma detectExtremeLevels_concat:
  "detectExtremeLevels cfg d
     = concat (map (extreme_step (mean_of d) (p1_of d) (p99_of d) (extremeThreshold cfg)) d)"
  by (simp add: detectExtremeLevels_def foldl_push Let_def p1_of_def p99_of_def mean_of_def)

lemma percentile_index:
  assumes "0 < n" and "0 \<le> c" and "c < 1"
  shows "nat \<lfloor>real n * c\<rfloor> < n"
proof -
  have "real n * c < real n" using assms by simp
  then have "\<lfloor>real n * c\<rfloor> < int n" by linarith
  then show ?thesis using assms(1) by linarith
qed

lemma percentile_mem:
  assumes "d \<noteq> []" and "0 \<le> c" and "c < 1"
  shows "sort (map seaLevel d) ! nat \<lfloor>real (length d) * c\<rfloor> \<in> seaLevel ` set d"
proof -
  have "nat \<lfloor>real (length d) * c\<rfloor> < length (sort (map seaLevel d))"
    using percentile_index[of "length d" c] assms by simp
  then have "sort (map seaLevel d) ! nat \<lfloor>real (length d) * c\<rfloor> \<in> set (sort (map seaLevel d))"
    by (rule nth_mem)
  then show ?thesis by simp
qed

lemma extreme_step_flagged:
  assumes "seaLevel p \<le> p1 \<or> seaLevel p \<ge> p99"
  shows "\<exists>e. extreme_step m p1 p99 thr p = [e] \<and> extreme_at p e"
  using assms unfolding extreme_step_def Let_def extreme_at_def by auto

text \<open>
  Claim C10. On a non-empty series, whatever the configuration, every sample whose level
  is the maximum and every sample whose level is the minimum gets an Extreme Level
  event, and so the detector emits at least one event.
\<close>

theorem extreme_levels_flag_max_and_min:
  assumes "d \<noteq> []"
  shows "(\<forall>p \<in> set d.
            seaLevel p = Max (seaLevel ` set d) \<or> seaLevel p = Min (seaLevel ` set d) \<longrightarrow>
            (\<exists>e \<in> set (detectExtremeLevels cfg d). extreme_at p e))
         \<and> detectExtremeLevels cfg d \<noteq> []"
proof -
  have fin: "finite (seaLevel ` set d)" "seaLevel ` set d \<noteq> {}" using assms by simp_all
  have p99: "p99_of d \<le> Max (seaLevel ` set d)"
    unfolding p99_of_def using percentile_mem[OF assms, of "0.99"] fin by simp
  have p1: "Min (seaLevel ` set d) \<le> p1_of d"
    unfolding p1_of_def using percentile_mem[OF assms, of "0.01"] fin by simp
  have flag: "\<exists>e \<in> set (detectExtremeLevels cfg d). extreme_at p e"
    if p: "p \<in> set d" and ext: "seaLevel p = Max (seaLevel ` set d) \<or> seaLevel p = Min (seaLevel ` set d)"
    for p
  proof -
    have "seaLevel p \<le> p1_of d \<or> seaLevel p \<ge> p99_of d" using ext p1 p99 by auto
    then obtain e where e: "extreme_step (mean_of d) (p1_of d) (p99_of d) (extremeThreshold cfg) p = [e]"
      "extreme_at p e"
      using extreme_step_flagged by blast
    have "e \<in> set (detectExtremeLevels cfg d)"
      unfolding detectExtremeLevels_concat using p e(1) by force
    then show ?thesis using e(2) by blast
  qed
  obtain q where q: "q \<in> set d" "seaLevel q = Max (seaLevel ` set d)"
    using Max_in[OF fin] by auto
  then have "\<exists>e \<in> set (detectExtremeLevels cfg d). extreme_at q e" using flag by blast
  then have "detectExtremeLevels cfg d \<noteq> []" by auto
  then show ?thesis using flag by blast
qed

text \<open>The theorem at three levels within 0.2 m and a threshold of 1000 m.\<close>

theorem extreme_levels_flag_max_and_min_witness:
  "(\<exists>e \<in> set (detectExtremeLevels huge_threshold_config extreme_example).
       extreme_at \<lparr> timestamp = 120000, seaLevel = 1.2, originalIndex = 2 \<rparr> e)
   \<and> (\<exists>e \<in> set (detectExtremeLevels huge_threshold_config extreme_example).
       extreme_at \<lparr> timestamp = 0, seaLevel = 1.0, originalIndex = 0 \<rparr> e)
   \<and> detectExtremeLevels huge_threshold_config extreme_example \<noteq> []"
proof -
  have ne: "extreme_example \<noteq> []" by (simp add: extreme_example_def)
  have mx: "Max (seaLevel ` set extreme_example) = 1.2"
    and mn: "Min (seaLevel ` set extreme_example) = 1.0"
    by (simp_all add: extreme_example_def)
  have a: "\<lparr> timestamp = 120000, seaLevel = 1.2, originalIndex = 2 \<rparr> \<in> set extreme_example"
    and b: "\<lparr> timestamp = 0, seaLevel = 1.0, originalIndex = 0 \<rparr> \<in> set extreme_example"
    by (simp_all add: extreme_example_def)
  show ?thesis
    using extreme_levels_flag_max_and_min[OF ne, of huge_threshold_config] a b mx mn
    by fastforce
qed

subsection \<open>Gap filler\<close>

lemma fill_step_new:
  "fill_step i steps ld r j = splice_in (i - 1 + j) (new_sample (r ! (i - 1)) steps ld j) r"
  by (simp add: fill_step_def new_sample_def Let_def)

lemma fill_fold:
  assumes i: "1 \<le> i" "i \<le> length r"
  shows "foldl (fill_step i steps ld) r [1..<k + 1]
           = take i r @ map (new_sample (r ! (i - 1)) steps ld) [1..<k + 1] @ drop i r"
proof (induction k)
  case 0
  then show ?case by simp
next
  case (Suc k)
  let ?news = "map (new_sample (r ! (i - 1)) steps ld) [1..<k + 1]"
  let ?R = "take i r @ ?news @ drop i r"
  have lt: "length (take i r) = i" using i by simp
  have x: "?R ! (i - 1) = r ! (i - 1)"
    using i by (simp add: nth_append)
  have tk: "take (i + k) ?R = take i r @ ?news"
    using lt by simp
  have dr: "drop (i + k) ?R = drop i r"
    using lt by simp
  have pos: "i - 1 + (k + 1) = i + k" using i by simp
  have "foldl (fill_step i steps ld) r [1..<Suc k + 1]
      = fill_step i steps ld (foldl (fill_step i steps ld) r [1..<k + 1]) (k + 1)"
    by simp
  also have "\<dots> = fill_step i steps ld ?R (k + 1)"
    unfolding Suc.IH ..
  also have "\<dots> = take (i + k) ?R @ new_sample (r ! (i - 1)) steps ld (k + 1) # drop (i + k) ?R"
    unfolding fill_step_new x pos splice_in_def ..
  also have "\<dots> = take i r @ map (new_sample (r ! (i - 1)) steps ld) [1..<Suc k + 1] @ drop i r"
    unfolding tk dr by simp
  finally show ?case .
qed

lemma fill_inner_eq:
  "1 \<le> i \<Longrightarrow> i \<le> length r \<Longrightarrow>
     fill_inner i steps ld r
       = take i r @ map (new_sample (r ! (i - 1)) steps ld) [1..<steps + 1] @ drop i r"
  unfolding fill_inner_def by (rule fill_fold)

lemma inserted_by_position_gap:
  assumes "timestamp y - timestamp x > expectedInterval * 2"
  shows "inserted_by_position x y
           = map (new_sample x (nat ((timestamp y - timestamp x) div expectedInterval - 1))
                    (seaLevel y - seaLevel x))
               [1..<nat ((timestamp y - timestamp x) div expectedInterval - 1) + 1]"
proof -
  let ?q = "(timestamp y - timestamp x) div expectedInterval"
  have "2 \<le> ?q" using assms by (simp add: expectedInterval_def)
  then have a: "nat (?q - 1) + 1 = nat ?q" and b: "real (nat ?q) = real_of_int ?q"
    by simp_all
  have c: "2 * expectedInterval < timestamp y - timestamp x" using assms by simp
  show ?thesis
    unfolding inserted_by_position_def Let_def new_sample_def a b using c by simp
qed

lemma inserted_by_position_no_gap:
  "\<not> timestamp y - timestamp x > expectedInterval * 2 \<Longrightarrow> inserted_by_position x y = []"
  by (simp add: inserted_by_position_def)

lemma drop_two:
  assumes "1 \<le> i" "i < length r"
  shows "drop (i - 1) r = r ! (i - 1) # r ! i # drop (i + 1) r"
proof -
  have "drop (i - 1) r = r ! (i - 1) # drop (Suc (i - 1)) r"
    using assms by (intro Cons_nth_drop_Suc[symmetric]) simp
  also have "Suc (i - 1) = i" using assms by simp
  also have "drop i r = r ! i # drop (Suc i) r"
    using assms by (intro Cons_nth_drop_Suc[symmetric]) simp
  finally show ?thesis by simp
qed

lemma take_snoc:
  assumes "1 \<le> i" "i \<le> length r"
  shows "take (i - 1) r @ [r ! (i - 1)] = take i r"
  using assms take_Suc_conv_app_nth[of "i - 1" r] by simp

lemma fillGaps_loop_spec:
  "1 \<le> i \<Longrightarrow> i \<le> length r \<Longrightarrow>
     fillGaps_loop i r = take (i - 1) r @ gap_fill_by_position (drop (i - 1) r)"
proof (induction i r rule: fillGaps_loop.induct)
  case (1 i r)
  show ?case
  proof (cases "i < length r")
    case False
    then have il: "i = length r" using "1.prems" by simp
    then have "drop (i - 1) r = [r ! (i - 1)]"
      using "1.prems" Cons_nth_drop_Suc[of "i - 1" r] by simp
    then have "take (i - 1) r @ gap_fill_by_position (drop (i - 1) r) = r"
      using take_snoc[OF "1.prems"] il by simp
    moreover have "fillGaps_loop i r = r"
      using False by (subst fillGaps_loop.simps) simp
    ultimately show ?thesis by simp
  next
    case True
    let ?x = "r ! (i - 1)" and ?y = "r ! i"
    let ?td = "timestamp ?y - timestamp ?x"
    have d2: "drop (i - 1) r = ?x # ?y # drop (i + 1) r"
      using drop_two[of i r] "1.prems" True by simp
    have di: "drop i r = ?y # drop (i + 1) r"
      using True Cons_nth_drop_Suc[of i r] by simp
    have sn: "take (i - 1) r @ [?x] = take i r"
      using take_snoc[OF "1.prems"] .
    show ?thesis
    proof (cases "?td > expectedInterval * 2")
      case False
      have "fillGaps_loop i r = fillGaps_loop (i + 1) r"
        using True False by (subst fillGaps_loop.simps) simp
      also have "\<dots> = take i r @ gap_fill_by_position (drop i r)"
        using "1.IH"(2)[OF True refl False] True by simp
      also have "\<dots> = take (i - 1) r @ gap_fill_by_position (drop (i - 1) r)"
        unfolding d2 di using inserted_by_position_no_gap[OF False] sn
        by (simp del: append_assoc add: append_assoc[symmetric])
      finally show ?thesis .
    next
      case gap: True
      define steps where "steps = nat (?td div expectedInterval - 1)"
      define ld where "ld = seaLevel ?y - seaLevel ?x"
      let ?news = "map (new_sample ?x steps ld) [1..<steps + 1]"
      let ?R = "fill_inner i steps ld r"
      have R: "?R = take i r @ ?news @ drop i r"
        using fill_inner_eq[of i r steps ld] "1.prems" by simp
      have lt: "length (take i r) = i" using True by simp
      have ln: "length ?news = steps" by simp
      have tk: "take (i + steps) ?R = take i r @ ?news"
        unfolding R using lt ln by simp
      have dr: "drop (i + steps) ?R = drop i r"
        unfolding R using lt ln by simp
      have lenR: "length ?R = length r + steps"
        unfolding R using True by simp
      have ins: "inserted_by_position ?x ?y = ?news"
        using inserted_by_position_gap[OF gap] unfolding steps_def ld_def .
      have "fillGaps_loop i r = fillGaps_loop (i + steps + 1) ?R"
        using True gap by (subst fillGaps_loop.simps) (simp add: steps_def ld_def Let_def)
      also have "\<dots> = take (i + steps + 1 - 1) ?R @ gap_fill_by_position (drop (i + steps + 1 - 1) ?R)"
        using "1.IH"(1)[OF True refl gap steps_def ld_def] True lenR by simp
      also have "\<dots> = take i r @ ?news @ gap_fill_by_position (drop i r)"
        using tk dr by simp
      also have "\<dots> = take (i - 1) r @ gap_fill_by_position (drop (i - 1) r)"
        unfolding d2 di gap_fill_by_position.simps ins sn[symmetric] by simp
      finally show ?thesis .
    qed
  qed
qed

lemma fillGaps_by_position: "fillGaps d = gap_fill_by_position d"
proof (cases d)
  case Nil
  then show ?thesis
    unfolding fillGaps_def by (subst fillGaps_loop.simps) simp
next
  case (Cons x xs)
  then show ?thesis
    unfolding fillGaps_def using fillGaps_loop_spec[of 1 d] by simp
qed

lemma inserted_on_grid:
  assumes "(timestamp y - timestamp x) mod expectedInterval = 0"
  shows "inserted_by_position x y = inserted_samples_spec x y"
proof (cases "timestamp y - timestamp x > 2 * expectedInterval")
  case False
  then show ?thesis by (simp add: inserted_by_position_def inserted_samples_spec_def)
next
  case True
  define delta where "delta = timestamp y - timestamp x"
  define q where "q = delta div expectedInterval"
  have I: "expectedInterval = 60000" by (simp add: expectedInterval_def)
  have dq: "delta = q * expectedInterval"
    using assms unfolding q_def delta_def by (simp add: mod_eq_0_iff_dvd)
  have qpos: "0 < q" using True dq unfolding delta_def[symmetric] I by simp
  have lvl: "line_level x y (timestamp x + int j * expectedInterval)
      = seaLevel x + (seaLevel y - seaLevel x) * real j / real_of_int q" for j
  proof -
    have r: "real_of_int (int j * expectedInterval) / real_of_int delta = real j / real_of_int q"
      unfolding dq I using qpos by simp
    have e: "timestamp x + int j * expectedInterval - timestamp x = int j * expectedInterval"
      by simp
    show ?thesis
      unfolding line_level_def delta_def[symmetric] e times_divide_eq_right[symmetric] r ..
  qed
  show ?thesis
    unfolding inserted_by_position_def inserted_samples_spec_def Let_def delta_def[symmetric]
      lvl q_def[symmetric] ..
qed

lemma gap_fill_on_grid:
  "(\<And>i. Suc i < length d \<Longrightarrow>
        (timestamp (d ! Suc i) - timestamp (d ! i)) mod expectedInterval = 0)
   \<Longrightarrow> gap_fill_by_position d = gap_fill_spec d"
proof (induction d rule: gap_fill_by_position.induct)
  case 1
  then show ?case by simp
next
  case (2 x)
  then show ?case by simp
next
  case (3 x y rest)
  have "(timestamp y - timestamp x) mod expectedInterval = 0"
    using "3.prems"[of 0] by simp
  then have a: "inserted_by_position x y = inserted_samples_spec x y"
    by (rule inserted_on_grid)
  have "gap_fill_by_position (y # rest) = gap_fill_spec (y # rest)"
  proof (rule "3.IH")
    fix i assume "Suc i < length (y # rest)"
    then show "(timestamp ((y # rest) ! Suc i) - timestamp ((y # rest) ! i)) mod expectedInterval = 0"
      using "3.prems"[of "Suc i"] by simp
  qed
  then show ?case using a by simp
qed

text \<open>
  Claim C4, as amended. The gap filler inserts, after each sample, samples between it
  and its successor, and nothing else. Between two consecutive samples more than two
  intervals of 60000 ms apart these are exactly \<open>floor(delta / 60000) - 1\<close> samples, the
  \<open>k\<close>-th of them (from 0) at \<open>k + 1\<close> intervals after the left sample, with
  \<open>originalIndex\<close> equal to -1 and a level interpolated linearly by position: \<open>k + 1\<close>
  parts out of (number of inserted samples + 1) of the way from the left level to the
  right one. Between two samples at most two intervals apart there is none. Two
  samples 5 minutes apart with levels 1.0 and 1.5 gain the four samples with levels
  1.1, 1.2, 1.3, 1.4 at 1-minute spacing. When the time delta is a multiple of
  60000 ms the inserted levels are on the straight line between the two bounding
  samples, and on a series all of whose consecutive deltas are such multiples the gap
  filler is the one the specification words.
\<close>

theorem gap_fill_positional:
  "fillGaps d = gap_fill_by_position d
   \<and> (timestamp y - timestamp x > 2 * 60000 \<longrightarrow>
        length (inserted_by_position x y)
          = nat (\<lfloor>real_of_int (timestamp y - timestamp x) / 60000\<rfloor> - 1)
        \<and> (\<forall>k < length (inserted_by_position x y).
              inserted_by_position x y ! k
                = \<lparr> timestamp = timestamp x + (int k + 1) * 60000,
                    seaLevel = seaLevel x + (seaLevel y - seaLevel x) * (real k + 1)
                                 / (real (length (inserted_by_position x y)) + 1),
                    originalIndex = - 1 \<rparr>))
   \<and> (timestamp y - timestamp x \<le> 2 * 60000 \<longrightarrow> inserted_by_position x y = [])
   \<and> (timestamp y = timestamp x + 300000 \<and> seaLevel x = 1.0 \<and> seaLevel y = 1.5 \<longrightarrow>
        fillGaps [x, y]
          = [x,
             \<lparr> timestamp = timestamp x + 60000, seaLevel = 1.1, originalIndex = - 1 \<rparr>,
             \<lparr> timestamp = timestamp x + 120000, seaLevel = 1.2, originalIndex = - 1 \<rparr>,
             \<lparr> timestamp = timestamp x + 180000, seaLevel = 1.3, originalIndex = - 1 \<rparr>,
             \<lparr> timestamp = timestamp x + 240000, seaLevel = 1.4, originalIndex = - 1 \<rparr>,
             y])
   \<and> ((timestamp y - timestamp x) mod 60000 = 0 \<longrightarrow>
        inserted_by_position x y = inserted_samples_spec x y)
   \<and> ((\<forall>i. Suc i < length d \<longrightarrow> (timestamp (d ! Suc i) - timestamp (d ! i)) mod 60000 = 0) \<longrightarrow>
        fillGaps d = gap_fill_spec d)"
proof -
  let ?delta = "timestamp y - timestamp x"
  let ?q = "?delta div 60000"
  have fl: "\<lfloor>real_of_int ?delta / 60000\<rfloor> = ?q"
    using floor_divide_of_int_eq[of ?delta 60000, where ?'a = real] by simp
  have gap: "length (inserted_by_position x y) = nat (\<lfloor>real_of_int ?delta / 60000\<rfloor> - 1)
        \<and> (\<forall>k < length (inserted_by_position x y).
              inserted_by_position x y ! k
                = \<lparr> timestamp = timestamp x + (int k + 1) * 60000,
                    seaLevel = seaLevel x + (seaLevel y - seaLevel x) * (real k + 1)
                                 / (real (length (inserted_by_position x y)) + 1),
                    originalIndex = - 1 \<rparr>)"
    if g: "?delta > 2 * 60000"
  proof -
    have q2: "2 \<le> ?q" using g by simp
    have ins: "inserted_by_position x y
        = map (new_sample x (nat (?q - 1)) (seaLevel y - seaLevel x)) [1..<nat (?q - 1) + 1]"
    proof -
      have "timestamp y - timestamp x > expectedInterval * 2"
        using g by (simp add: expectedInterval_def)
      from inserted_by_position_gap[OF this] show ?thesis
        unfolding expectedInterval_def .
    qed
    have len: "length (inserted_by_position x y) = nat (?q - 1)"
      unfolding ins by simp
    have "inserted_by_position x y ! k
                = \<lparr> timestamp = timestamp x + (int k + 1) * 60000,
                    seaLevel = seaLevel x + (seaLevel y - seaLevel x) * (real k + 1)
                                 / (real (length (inserted_by_position x y)) + 1),
                    originalIndex = - 1 \<rparr>"
      if "k < length (inserted_by_position x y)" for k
    proof -
      have k: "k < nat (?q - 1)" using that len by simp
      have "inserted_by_position x y ! k
          = new_sample x (nat (?q - 1)) (seaLevel y - seaLevel x) ([1..<nat (?q - 1) + 1] ! k)"
        unfolding ins using k by (intro nth_map) simp
      also have "[1..<nat (?q - 1) + 1] ! k = 1 + k"
        using k by (intro nth_upt) simp
      finally show ?thesis
        unfolding len by (simp add: new_sample_def expectedInterval_def add.commute)
    qed
    then show ?thesis using len fl by simp
  qed
  have nogap: "inserted_by_position x y = []" if "?delta \<le> 2 * 60000"
    using that by (intro inserted_by_position_no_gap) (simp add: expectedInterval_def)
  have five: "fillGaps [x, y]
          = [x,
             \<lparr> timestamp = timestamp x + 60000, seaLevel = 1.1, originalIndex = - 1 \<rparr>,
             \<lparr> timestamp = timestamp x + 120000, seaLevel = 1.2, originalIndex = - 1 \<rparr>,
             \<lparr> timestamp = timestamp x + 180000, seaLevel = 1.3, originalIndex = - 1 \<rparr>,
             \<lparr> timestamp = timestamp x + 240000, seaLevel = 1.4, originalIndex = - 1 \<rparr>,
             y]"
    if h: "timestamp y = timestamp x + 300000 \<and> seaLevel x = 1.0 \<and> seaLevel y = 1.5"
  proof -
    have d: "timestamp y - timestamp x = 300000" using h by simp
    have hx: "seaLevel x = 1" and hy: "seaLevel y = 3 / 2" using h by simp_all
    have u: "[Suc 0..<5] = [1, 2, 3, 4]" by (simp add: upt_rec)
    have "inserted_by_position x y
        = [\<lparr> timestamp = timestamp x + 60000, seaLevel = 1.1, originalIndex = - 1 \<rparr>,
           \<lparr> timestamp = timestamp x + 120000, seaLevel = 1.2, originalIndex = - 1 \<rparr>,
           \<lparr> timestamp = timestamp x + 180000, seaLevel = 1.3, originalIndex = - 1 \<rparr>,
           \<lparr> timestamp = timestamp x + 240000, seaLevel = 1.4, originalIndex = - 1 \<rparr>]"
      unfolding inserted_by_position_def d Let_def hx hy by (simp add: expectedInterval_def u)
    then show ?thesis unfolding fillGaps_by_position by simp
  qed
  have grid: "inserted_by_position x y = inserted_samples_spec x y"
    if "(timestamp y - timestamp x) mod 60000 = 0"
    using that by (intro inserted_on_grid) (simp add: expectedInterval_def)
  have whole: "fillGaps d = gap_fill_spec d"
    if "\<forall>i. Suc i < length d \<longrightarrow> (timestamp (d ! Suc i) - timestamp (d ! i)) mod 60000 = 0"
    unfolding fillGaps_by_position
    using that by (intro gap_fill_on_grid) (simp add: expectedInterval_def)
  show ?thesis using fillGaps_by_position gap nogap five grid whole by blast
qed


text \<open>The theorem at the samples (0 ms, 1.0 m) and (300000 ms, 1.5 m).\<close>

theorem gap_fill_positional_witness:
  "fillGaps gap_example
     = [\<lparr> timestamp = 0, seaLevel = 1.0, originalIndex = 0 \<rparr>,
        \<lparr> timestamp = 60000, seaLevel = 1.1, originalIndex = - 1 \<rparr>,
        \<lparr> timestamp = 120000, seaLevel = 1.2, originalIndex = - 1 \<rparr>,
        \<lparr> timestamp = 180000, seaLevel = 1.3, originalIndex = - 1 \<rparr>,
        \<lparr> timestamp = 240000, seaLevel = 1.4, originalIndex = - 1 \<rparr>,
        \<lparr> timestamp = 300000, seaLevel = 1.5, originalIndex = 1 \<rparr>]
   \<and> fillGaps gap_example = gap_fill_spec gap_example"
proof -
  have grid: "\<forall>i. Suc i < length gap_example \<longrightarrow>
      (timestamp (gap_example ! Suc i) - timestamp (gap_example ! i)) mod 60000 = 0"
    by (simp add: gap_example_def)
  have x: "gap_example = [\<lparr> timestamp = 0, seaLevel = 1.0, originalIndex = 0 \<rparr>,
                         \<lparr> timestamp = 300000, seaLevel = 1.5, originalIndex = 1 \<rparr>]"
    by (simp add: gap_example_def)
  have five: "timestamp \<lparr> timestamp = 300000, seaLevel = 1.5, originalIndex = 1 \<rparr>
        = timestamp \<lparr> timestamp = 0, seaLevel = 1.0, originalIndex = 0 \<rparr> + 300000
      \<and> seaLevel \<lparr> timestamp = 0, seaLevel = 1.0, originalIndex = 0 \<rparr> = 1.0
      \<and> seaLevel \<lparr> timestamp = 300000, seaLevel = 1.5, originalIndex = 1 \<rparr> = 1.5"
    by simp
  note t = gap_fill_positional[of gap_example
        "\<lparr> timestamp = 300000, seaLevel = 1.5, originalIndex = 1 \<rparr>"
        "\<lparr> timestamp = 0, seaLevel = 1.0, originalIndex = 0 \<rparr>"]
  have a: "fillGaps gap_example
     = [\<lparr> timestamp = 0, seaLevel = 1.0, originalIndex = 0 \<rparr>,
        \<lparr> timestamp = 60000, seaLevel = 1.1, originalIndex = - 1 \<rparr>,
        \<lparr> timestamp = 120000, seaLevel = 1.2, originalIndex = - 1 \<rparr>,
        \<lparr> timestamp = 180000, seaLevel = 1.3, originalIndex = - 1 \<rparr>,
        \<lparr> timestamp = 240000, seaLevel = 1.4, originalIndex = - 1 \<rparr>,
        \<lparr> timestamp = 300000, seaLevel = 1.5, originalIndex = 1 \<rparr>]"
    using mp[OF t[THEN conjunct2, THEN conjunct2, THEN conjunct2, THEN conjunct1] five]
    unfolding x[symmetric] by simp
  have b: "fillGaps gap_example = gap_fill_spec gap_example"
    using mp[OF t[THEN conjunct2, THEN conjunct2, THEN conjunct2, THEN conjunct2,
                  THEN conjunct2] grid] .
  show ?thesis using a b by (rule conjI)
qed

text \<open>
  Claim C4 as stated fails where the time delta is not a multiple of 60000 ms. The
  samples (60000 ms, 5 m) and (210000 ms, 6 m) are 2.5 intervals apart: one sample is
  inserted, at 120000 ms, with level 5.5, halfway by position. The straight line
  between the two samples is at 5.4 there.
\<close>

theorem gap_fill_time_linear_counterexample:
  "fillGaps offgrid_example
     = [\<lparr> timestamp = 60000, seaLevel = 5, originalIndex = 0 \<rparr>,
        \<lparr> timestamp = 120000, seaLevel = 5.5, originalIndex = - 1 \<rparr>,
        \<lparr> timestamp = 210000, seaLevel = 6, originalIndex = 1 \<rparr>]
   \<and> gap_fill_spec offgrid_example
     = [\<lparr> timestamp = 60000, seaLevel = 5, originalIndex = 0 \<rparr>,
        \<lparr> timestamp = 120000, seaLevel = 5.4, originalIndex = - 1 \<rparr>,
        \<lparr> timestamp = 210000, seaLevel = 6, originalIndex = 1 \<rparr>]
   \<and> line_level \<lparr> timestamp = 60000, seaLevel = 5, originalIndex = 0 \<rparr>
         \<lparr> timestamp = 210000, seaLevel = 6, originalIndex = 1 \<rparr> 120000 = 5.4"
proof -
  have u: "[Suc 0..<2] = [1]" by (simp add: upt_rec)
  have a: "fillGaps offgrid_example
     = [\<lparr> timestamp = 60000, seaLevel = 5, originalIndex = 0 \<rparr>,
        \<lparr> timestamp = 120000, seaLevel = 5.5, originalIndex = - 1 \<rparr>,
        \<lparr> timestamp = 210000, seaLevel = 6, originalIndex = 1 \<rparr>]"
    unfolding fillGaps_by_position offgrid_example_def
    by (simp add: inserted_by_position_def expectedInterval_def u)
  have b: "gap_fill_spec offgrid_example
     = [\<lparr> timestamp = 60000, seaLevel = 5, originalIndex = 0 \<rparr>,
        \<lparr> timestamp = 120000, seaLevel = 5.4, originalIndex = - 1 \<rparr>,
        \<lparr> timestamp = 210000, seaLevel = 6, originalIndex = 1 \<rparr>]"
    unfolding offgrid_example_def
    by (simp add: inserted_samples_spec_def line_level_def expectedInterval_def u)
  show ?thesis using a b by (simp add: line_level_def)
qed

subsection \<open>Sort invariant\<close>

lemma filter_key_distinct:
  "distinct (map f zs) \<Longrightarrow> k \<in> set zs \<Longrightarrow> filter (\<lambda>x. f k = f x) zs = [k]"
proof (induction zs)
  case Nil
  then show ?case by simp
next
  case (Cons z zs)
  show ?case
  proof (cases "k = z")
    case True
    have "filter (\<lambda>x. f z = f x) zs = []"
      using Cons.prems(1) by (auto simp: filter_empty_conv)
    then show ?thesis using True by simp
  next
    case False
    then have "k \<in> set zs" using Cons.prems(2) by simp
    moreover have "f k \<noteq> f z"
    proof -
      have "f k \<in> f ` set zs" using \<open>k \<in> set zs\<close> by simp
      moreover have "f z \<notin> f ` set zs" using Cons.prems(1) by simp
      ultimately show ?thesis by metis
    qed
    ultimately show ?thesis using Cons by simp
  qed
qed

lemma sort_key_perm_distinct:
  assumes d: "distinct (map f xs)" and m: "mset ys = mset xs"
  shows "sort_key f ys = sort_key f xs"
proof (rule properties_for_sort_key[symmetric])
  show "mset (sort_key f ys) = mset xs" using m by simp
  show "sorted (map f (sort_key f ys))" by simp
  fix k assume "k \<in> set (sort_key f ys)"
  then have kx: "k \<in> set xs" using m by (metis set_sort mset_eq_setD)
  have dy: "distinct (map f (sort_key f ys))"
  proof -
    have "mset (map f (sort_key f ys)) = mset (map f xs)" using m by simp
    then show ?thesis using d mset_eq_imp_distinct_iff by blast
  qed
  have "filter (\<lambda>x. f k = f x) (sort_key f ys) = [k]"
    using dy \<open>k \<in> set (sort_key f ys)\<close> by (rule filter_key_distinct)
  moreover have "filter (\<lambda>x. f k = f x) xs = [k]"
    using d kx by (rule filter_key_distinct)
  ultimately show "filter (\<lambda>x. f k = f x) (sort_key f ys) = filter (\<lambda>x. f k = f x) xs"
    by simp
qed

text \<open>
  Claim C3, as amended. For an input whose timestamps are pairwise distinct, the
  analysis of any permutation of the input returns the same decomposition and the same
  events (the whole result is equal).
\<close>

theorem sort_invariant_distinct:
  assumes "distinct (map timestamp xs)" and "mset ys = mset xs"
  shows "runFullAnalysis (constructor ys cfg) = runFullAnalysis (constructor xs cfg)"
  using sort_key_perm_distinct[OF assms] by (simp add: constructor_def)

text \<open>The theorem at the two-sample series and its reversal.\<close>

theorem sort_invariant_distinct_witness:
  "runFullAnalysis (constructor (rev gap_example) example_config)
     = runFullAnalysis (constructor gap_example example_config)"
proof -
  have "distinct (map timestamp gap_example)" by (simp add: gap_example_def)
  moreover have "mset (rev gap_example) = mset gap_example" by simp
  ultimately show ?thesis by (rule sort_invariant_distinct)
qed

lemma hd_gap_fill_by_position: "hd (gap_fill_by_position d) = hd d"
  by (cases d rule: gap_fill_by_position.cases) simp_all

lemma hd_smoothData:
  "d \<noteq> [] \<Longrightarrow>
     seaLevel (hd (smoothData d))
       = sort (map seaLevel (take (min (length d) 3) d)) ! (min (length d) 3 div 2)"
proof -
  assume "d \<noteq> []"
  then have "[0..<length d] = 0 # [1..<length d]" by (simp add: upt_conv_Cons)
  then show ?thesis
    by (simp add: smoothData_def slice_def Let_def min_def numeral_3_eq_3)
qed

text \<open>
  Claim C3 as stated fails where two samples share a timestamp: the stable sort keeps
  them in input order, and the median of the first window then differs. The two series
  are permutations of each other; the first level of the decomposition is 5 for one
  and 9 for the other.
\<close>

theorem sort_invariant_counterexample:
  "mset perm_example_b = mset perm_example_a
   \<and> seaLevel (hd (original (processedData
         (runFullAnalysis (constructor perm_example_a example_config))))) = 5
   \<and> seaLevel (hd (original (processedData
         (runFullAnalysis (constructor perm_example_b example_config))))) = 9"
proof -
  have sa: "sort_key timestamp perm_example_a = perm_example_a"
    by (simp add: perm_example_a_def)
  have sb: "sort_key timestamp perm_example_b = perm_example_b"
    by (simp add: perm_example_b_def)
  have orig: "original (processedData (runFullAnalysis (constructor d example_config)))
      = fillGaps (smoothData (sort_key timestamp d))" for d
    by (simp add: runFullAnalysis_def decompose_def Let_def constructor_def
        filterDataByTimeRange_def example_config_def)
  have a: "seaLevel (hd (smoothData perm_example_a)) = 5"
    by (subst hd_smoothData) (simp_all add: perm_example_a_def)
  have b: "seaLevel (hd (smoothData perm_example_b)) = 9"
    by (subst hd_smoothData) (simp_all add: perm_example_b_def)
  have m: "mset perm_example_b = mset perm_example_a"
    by (simp add: perm_example_a_def perm_example_b_def)
  show ?thesis
    unfolding orig sa sb fillGaps_by_position hd_gap_fill_by_position using a b m by simp
qed

subsection \<open>Spectral analyzer\<close>

lemma spectral_bins_upt: "spectral_bins i n = [i..<(n + 1) div 2]"
proof (induction i n rule: spectral_bins.induct)
  case (1 i n)
  show ?case
  proof (cases "real i < real n / 2")
    case True
    then have "2 * i < n" by (simp add: field_simps)
    then have lt: "i < (n + 1) div 2" by arith
    have "spectral_bins i n = i # spectral_bins (i + 1) n"
      using True by (subst spectral_bins.simps) simp
    also have "\<dots> = i # [i + 1..<(n + 1) div 2]"
      using "1.IH"[OF True] by simp
    also have "\<dots> = [i..<(n + 1) div 2]"
      using lt by (simp add: upt_conv_Cons)
    finally show ?thesis .
  next
    case False
    then have "\<not> 2 * i < n" by (simp add: field_simps)
    then have ge: "(n + 1) div 2 \<le> i" by arith
    have "spectral_bins i n = []"
      using False by (subst spectral_bins.simps) simp
    then show ?thesis using ge by simp
  qed
qed

lemma frequencies_eq:
  "frequencies (computeSpectralAnalysis d)
     = map (\<lambda>i. real i * (0.5 / (real (length d) / 2))) [0..<(length d + 1) div 2]"
  by (simp add: computeSpectralAnalysis_def Let_def spectral_bins_upt)

lemma powers_eq:
  "powers (computeSpectralAnalysis d)
     = map (\<lambda>i. bin_power (map seaLevel d) (real i * (0.5 / (real (length d) / 2))))
         [0..<(length d + 1) div 2]"
  by (simp add: computeSpectralAnalysis_def Let_def spectral_bins_upt)

lemma dominantFrequency_eq:
  "dominantFrequency (computeSpectralAnalysis d)
     = snd (foldl (dominant_step (powers (computeSpectralAnalysis d))
                     (frequencies (computeSpectralAnalysis d)))
              (0, 0) [0..<length (powers (computeSpectralAnalysis d))])"
  by (simp add: computeSpectralAnalysis_def Let_def)

lemma dominant_step_inv:
  assumes "dominant_inv pws freqs k st"
  shows "dominant_inv pws freqs (Suc k) (dominant_step pws freqs st k)"
proof (cases st)
  case (Pair mp df)
  have all: "\<forall>j<k. freqs ! j > 0 \<longrightarrow> pws ! j \<le> mp"
    and dis: "(mp = 0 \<and> df = 0)
            \<or> (\<exists>i<k. freqs ! i > 0 \<and> pws ! i = mp \<and> df = freqs ! i \<and> mp > 0
                       \<and> (\<forall>j<i. freqs ! j > 0 \<longrightarrow> pws ! j < mp))"
    using assms Pair by (simp_all add: dominant_inv_def)
  have mp0: "0 \<le> mp" using dis by auto
  show ?thesis
  proof (cases "pws ! k > mp \<and> freqs ! k > 0")
    case True
    then have st': "dominant_step pws freqs st k = (pws ! k, freqs ! k)"
      by (simp add: dominant_step_def Pair)
    have "\<forall>j<Suc k. freqs ! j > 0 \<longrightarrow> pws ! j \<le> pws ! k"
      using all True by (auto simp: less_Suc_eq)
    moreover have "\<exists>i<Suc k. freqs ! i > 0 \<and> pws ! i = pws ! k \<and> freqs ! k = freqs ! i \<and> pws ! k > 0
                       \<and> (\<forall>j<i. freqs ! j > 0 \<longrightarrow> pws ! j < pws ! k)"
    proof (intro exI[of _ k] conjI allI impI)
      fix j assume "j < k" "0 < freqs ! j"
      then have "pws ! j \<le> mp" using all by simp
      then show "pws ! j < pws ! k" using True by simp
    qed (use True mp0 in simp_all)
    ultimately show ?thesis unfolding st' dominant_inv_def by simp
  next
    case False
    then have st': "dominant_step pws freqs st k = (mp, df)"
      by (auto simp add: dominant_step_def Pair)
    have "\<forall>j<Suc k. freqs ! j > 0 \<longrightarrow> pws ! j \<le> mp"
      using all False by (auto simp: less_Suc_eq)
    moreover have "(mp = 0 \<and> df = 0)
            \<or> (\<exists>i<Suc k. freqs ! i > 0 \<and> pws ! i = mp \<and> df = freqs ! i \<and> mp > 0
                       \<and> (\<forall>j<i. freqs ! j > 0 \<longrightarrow> pws ! j < mp))"
      using dis less_SucI by blast
    ultimately show ?thesis unfolding st' dominant_inv_def by simp
  qed
qed

lemma dominant_loop_inv:
  "dominant_inv pws freqs k (foldl (dominant_step pws freqs) (0, 0) [0..<k])"
proof (induction k)
  case 0
  then show ?case by (simp add: dominant_inv_def)
next
  case (Suc k)
  then show ?case using dominant_step_inv[of pws freqs k] by simp
qed

text \<open>
  Claim C5, as amended. For a series of length \<open>N\<close> the analyzer returns \<open>(N + 1) div 2\<close>
  frequency bins and as many powers, that is \<open>N / 2\<close> rounded up. Bin \<open>i\<close> is at
  frequency \<open>i\<close> times the step \<open>0.5 / (N / 2)\<close>, which is \<open>i / N\<close>: the bins are uniformly
  spaced from 0 and all strictly below 0.5. When some bin of frequency above 0 has a
  power above 0, \<open>dominantFrequency\<close> is the frequency of the first bin that attains the
  maximum power among the bins of frequency above 0; when none has, it is 0.
\<close>

theorem spectral_bins_and_dominant:
  "(let sa = computeSpectralAnalysis d; m = (length d + 1) div 2 in
      length (frequencies sa) = m \<and> length (powers sa) = m
      \<and> (\<forall>i<m. frequencies sa ! i = real i * (0.5 / (real (length d) / 2))
                \<and> frequencies sa ! i = real i / real (length d)
                \<and> frequencies sa ! i < 0.5)
      \<and> ((\<exists>i<m. frequencies sa ! i > 0 \<and> powers sa ! i > 0) \<longrightarrow>
            (\<exists>i<m. frequencies sa ! i > 0 \<and> dominantFrequency sa = frequencies sa ! i
                    \<and> (\<forall>j<m. frequencies sa ! j > 0 \<longrightarrow> powers sa ! j \<le> powers sa ! i)
                    \<and> (\<forall>j<i. frequencies sa ! j > 0 \<longrightarrow> powers sa ! j < powers sa ! i)))
      \<and> (\<not> (\<exists>i<m. frequencies sa ! i > 0 \<and> powers sa ! i > 0) \<longrightarrow>
            dominantFrequency sa = 0))"
proof -
  define sa where "sa = computeSpectralAnalysis d"
  define m where "m = (length d + 1) div 2"
  let ?n = "length d"
  have lf: "length (frequencies sa) = m" by (simp add: sa_def m_def frequencies_eq)
  have lp: "length (powers sa) = m" by (simp add: sa_def m_def powers_eq)
  have fr: "frequencies sa ! i = real i * (0.5 / (real ?n / 2))
          \<and> frequencies sa ! i = real i / real ?n \<and> frequencies sa ! i < 0.5"
    if "i < m" for i
  proof -
    have f: "frequencies sa ! i = real i * (0.5 / (real ?n / 2))"
      using that by (simp add: sa_def m_def frequencies_eq)
    have "2 * i < ?n" using that unfolding m_def by arith
    then have "real (2 * i) < real ?n" and "0 < real ?n"
      by (simp_all only: of_nat_less_iff of_nat_0_less_iff)
    then have "real i / real ?n < 0.5" by (simp add: field_simps)
    then show ?thesis using f by simp
  qed
  obtain mp df where st: "foldl (dominant_step (powers sa) (frequencies sa)) (0, 0) [0..<m] = (mp, df)"
    by (cases "foldl (dominant_step (powers sa) (frequencies sa)) (0, 0) [0..<m]")
  have df: "dominantFrequency sa = df"
    using st lp unfolding sa_def by (simp add: dominantFrequency_eq)
  have inv: "dominant_inv (powers sa) (frequencies sa) m (mp, df)"
    using dominant_loop_inv[of "powers sa" "frequencies sa" m] st by simp
  have all: "\<forall>j<m. frequencies sa ! j > 0 \<longrightarrow> powers sa ! j \<le> mp"
    and dis: "(mp = 0 \<and> df = 0)
            \<or> (\<exists>i<m. frequencies sa ! i > 0 \<and> powers sa ! i = mp \<and> df = frequencies sa ! i
                   \<and> mp > 0 \<and> (\<forall>j<i. frequencies sa ! j > 0 \<longrightarrow> powers sa ! j < mp))"
    using inv by (simp_all add: dominant_inv_def)
  have pos: "\<exists>i<m. frequencies sa ! i > 0 \<and> dominantFrequency sa = frequencies sa ! i
                    \<and> (\<forall>j<m. frequencies sa ! j > 0 \<longrightarrow> powers sa ! j \<le> powers sa ! i)
                    \<and> (\<forall>j<i. frequencies sa ! j > 0 \<longrightarrow> powers sa ! j < powers sa ! i)"
    if "\<exists>i<m. frequencies sa ! i > 0 \<and> powers sa ! i > 0"
  proof -
    from that obtain i where "i < m" "frequencies sa ! i > 0" "powers sa ! i > 0" by blast
    then have "mp > 0" using all by fastforce
    then obtain i' where "i' < m" "frequencies sa ! i' > 0" "powers sa ! i' = mp"
      "df = frequencies sa ! i'" "\<forall>j<i'. frequencies sa ! j > 0 \<longrightarrow> powers sa ! j < mp"
      using dis by auto
    then show ?thesis using all df by (intro exI[of _ i']) simp
  qed
  have zero: "dominantFrequency sa = 0"
    if "\<not> (\<exists>i<m. frequencies sa ! i > 0 \<and> powers sa ! i > 0)"
    using that dis df by auto
  show ?thesis
    unfolding Let_def sa_def[symmetric] m_def[symmetric]
    using lf lp fr pos zero by blast
qed

lemma pulse_spectrum:
  "frequencies (computeSpectralAnalysis pulse_example) = [0, 1 / 4]"
  "powers (computeSpectralAnalysis pulse_example) = [1 / 4, 1 / 4]"
proof -
  have u: "[0..<2] = [0, Suc 0]" "[0..<4] = [0, 1, 2, 3]" by (simp_all add: upt_rec)
  have l: "length pulse_example = 4" by (simp add: pulse_example_def)
  have h: "(4 + 1) div 2 = (2::nat)" by simp
  show "frequencies (computeSpectralAnalysis pulse_example) = [0, 1 / 4]"
    unfolding frequencies_eq l h u by simp
  show "powers (computeSpectralAnalysis pulse_example) = [1 / 4, 1 / 4]"
    unfolding powers_eq l h u(1) by (simp add: bin_power_def pulse_example_def u(2))
qed

text \<open>
  The theorem at the four levels 1, 0, 0, 0: two bins, 0 and 1/4, each of power 1/4, and
  the dominant frequency is that of a bin above 0.
\<close>

theorem spectral_bins_and_dominant_witness:
  "length (frequencies (computeSpectralAnalysis pulse_example)) = 2
   \<and> (\<exists>i<2. frequencies (computeSpectralAnalysis pulse_example) ! i > 0
             \<and> dominantFrequency (computeSpectralAnalysis pulse_example)
                 = frequencies (computeSpectralAnalysis pulse_example) ! i)"
proof -
  have l: "(length pulse_example + 1) div 2 = 2" by (simp add: pulse_example_def)
  have "\<exists>i<2. frequencies (computeSpectralAnalysis pulse_example) ! i > 0
             \<and> powers (computeSpectralAnalysis pulse_example) ! i > 0"
    unfolding pulse_spectrum by (intro exI[of _ 1]) simp
  then show ?thesis
    using spectral_bins_and_dominant[of pulse_example] unfolding Let_def l by blast
qed

text \<open>
  Claim C5 as stated fails on three samples of level 0: there are 2 bins, not 3/2 and
  not 1; and the dominant frequency is 0, the frequency of the excluded bin 0, since no
  bin has a positive power.
\<close>

theorem spectral_bins_counterexample:
  "length calm_example = 3
   \<and> frequencies (computeSpectralAnalysis calm_example) = [0, 1 / 3]
   \<and> powers (computeSpectralAnalysis calm_example) = [0, 0]
   \<and> dominantFrequency (computeSpectralAnalysis calm_example) = 0"
proof -
  have u: "[0..<2] = [0, Suc 0]" "[0..<3] = [0, 1, 2]" by (simp_all add: upt_rec)
  have l: "length calm_example = 3" by (simp add: calm_example_def)
  have h: "(3 + 1) div 2 = (2::nat)" by simp
  have f: "frequencies (computeSpectralAnalysis calm_example) = [0, 1 / 3]"
    unfolding frequencies_eq l h u by simp
  have p: "powers (computeSpectralAnalysis calm_example) = [0, 0]"
    unfolding powers_eq l h u(1) by (simp add: bin_power_def calm_example_def u(2))
  have "dominantFrequency (computeSpectralAnalysis calm_example) = 0"
    unfolding dominantFrequency_eq p f by (simp add: u dominant_step_def)
  then show ?thesis using l f p by simp
qed

subsection \<open>Aliased-activity detector\<close>

lemma findIndex_Some:
  "findIndex P xs = Some k \<Longrightarrow> k < length xs \<and> P (xs ! k) \<and> (\<forall>j<k. \<not> P (xs ! j))"
proof (induction xs arbitrary: k)
  case Nil
  then show ?case by simp
next
  case (Cons x xs)
  show ?case
  proof (cases "P x")
    case True
    then show ?thesis using Cons.prems by simp
  next
    case False
    then obtain k' where k': "findIndex P xs = Some k'" "k = Suc k'"
      using Cons.prems by auto
    from Cons.IH[OF k'(1)] show ?thesis
      using False k'(2) by (auto simp: nth_Cons')
  qed
qed

lemma aliased_structure:
  "detectAliasedActivity rs =
     (case nyquist_bin rs of
        None \<Rightarrow> []
      | Some k \<Rightarrow>
          if powers (computeSpectralAnalysis rs) ! k > mean_power rs * 3 then
            map (\<lambda>n.
                   \<lparr> id_e = [Lit ''aliased-'', Num (real n)],
                     type_e = AliasedActivity,
                     label = [Lit ''Probable Aliased Waves ('',
                              Fixed (calculateMovingVariance rs 10 ! (hot_windows rs ! n)) 6,
                              Lit '' variance)''],
                     startTime = timestamp (rs ! (hot_windows rs ! n)),
                     endTime = Some (timestamp (rs ! min (hot_windows rs ! n + 10) (length rs - 1))),
                     confidence = Low,
                     amplitude = None,
                     period = None,
                     explanation = [Lit ''High variance ('',
                                    Fixed (calculateMovingVariance rs 10 ! (hot_windows rs ! n)) 6,
                                    Lit '') and energy near Nyquist frequency ('',
                                    Num 0.5,
                                    Lit '' cyc/min) suggest aliased short-period waves''],
                     peak = None,
                     properties = [(''variance'', PNum (calculateMovingVariance rs 10 ! (hot_windows rs ! n))),
                                   (''nyquist_power'', PNum (powers (computeSpectralAnalysis rs) ! k)),
                                   (''mean_power'', PNum (mean_power rs)),
                                   (''power_ratio'',
                                      PNum (powers (computeSpectralAnalysis rs) ! k / mean_power rs))] \<rparr>)
              [0..<length (hot_windows rs)]
          else [])"
proof -
  define v where "v = calculateMovingVariance rs 10"
  define hvp where "hvp =
     map (\<lambda>(v, i). (timestamp (rs ! i), timestamp (rs ! min (i + 10) (length rs - 1)), v))
       (filter (\<lambda>(v', i). v' > calculateVarianceThreshold v)
          (map (\<lambda>i. (v ! i, i)) [0..<length v]))"
  have hvp: "hvp = map (\<lambda>i. (timestamp (rs ! i), timestamp (rs ! min (i + 10) (length rs - 1)), v ! i))
                      (hot_windows rs)"
    unfolding hvp_def hot_windows_def v_def[symmetric] by (simp add: filter_map comp_def)
  have "detectAliasedActivity rs =
     (case nyquist_bin rs of
        None \<Rightarrow> []
      | Some k \<Rightarrow>
          if powers (computeSpectralAnalysis rs) ! k > mean_power rs * 3 then
            map (\<lambda>index.
                   case hvp ! index of (start, stop, var) \<Rightarrow>
                   \<lparr> id_e = [Lit ''aliased-'', Num (real index)],
                     type_e = AliasedActivity,
                     label = [Lit ''Probable Aliased Waves ('', Fixed var 6, Lit '' variance)''],
                     startTime = start,
                     endTime = Some stop,
                     confidence = Low,
                     amplitude = None,
                     period = None,
                     explanation = [Lit ''High variance ('', Fixed var 6,
                                    Lit '') and energy near Nyquist frequency ('',
                                    Num 0.5,
                                    Lit '' cyc/min) suggest aliased short-period waves''],
                     peak = None,
                     properties = [(''variance'', PNum var),
                                   (''nyquist_power'', PNum (powers (computeSpectralAnalysis rs) ! k)),
                                   (''mean_power'', PNum (mean_power rs)),
                                   (''power_ratio'',
                                      PNum (powers (computeSpectralAnalysis rs) ! k / mean_power rs))] \<rparr>)
              [0..<length hvp]
          else [])"
    unfolding detectAliasedActivity_def Let_def hvp_def v_def nyquist_bin_def mean_power_def ..
  then show ?thesis
    unfolding hvp v_def by (auto split: option.splits)
qed

subsection \<open>The aliasing example: spectrum\<close>

lemma quarter_turns:
  "cos (real m * pi / 2) = (if m mod 4 = 0 then 1 else if m mod 4 = 2 then - 1 else 0)
   \<and> sin (real m * pi / 2) = (if m mod 4 = 1 then 1 else if m mod 4 = 3 then - 1 else 0)"
proof (induction m)
  case 0
  then show ?case by simp
next
  case (Suc m)
  have arg: "real (Suc m) * pi / 2 = real m * pi / 2 + pi / 2"
    by (simp add: field_simps)
  have c: "cos (real (Suc m) * pi / 2) = - sin (real m * pi / 2)"
    unfolding arg by (simp add: cos_add)
  have s: "sin (real (Suc m) * pi / 2) = cos (real m * pi / 2)"
    unfolding arg by (simp add: sin_add)
  have cases: "m mod 4 = 0 \<or> m mod 4 = 1 \<or> m mod 4 = 2 \<or> m mod 4 = 3" by arith
  have suc: "Suc m mod 4 = (if m mod 4 = 3 then 0 else Suc (m mod 4))" by arith
  show ?case
    unfolding c s using Suc cases suc by auto
qed

lemma quarter_turn: "cos (real m * pi / 2) + sin (real m * pi / 2) = quarter m"
proof -
  have "m mod 4 = 0 \<or> m mod 4 = 1 \<or> m mod 4 = 2 \<or> m mod 4 = 3" by arith
  then show ?thesis using quarter_turns[of m] unfolding quarter_def by auto
qed

lemma foldl_sum: "foldl (\<lambda>p j. p + g j) a [0..<n] = a + (\<Sum>j<n. g j)"
  by (induction n) (simp_all add: add.assoc)

lemma alias_levels: "j < 40 \<Longrightarrow> map seaLevel alias_example ! j = alias_level j"
  by (simp add: alias_example_def)

lemma alias_bin_power:
  "bin_power (map seaLevel alias_example) (real i * (0.5 / (real (length alias_example) / 2)))
     = \<bar>1.2 - quarter i + quarter (2 * i) - quarter (3 * i)\<bar> / 40"
proof -
  define f where "f = real i * (0.5 / (real (length alias_example) / 2))"
  define g where "g = (\<lambda>j. map seaLevel alias_example ! j * cos (2 * pi * f * real j)
                + map seaLevel alias_example ! j * sin (2 * pi * f * real j))"
  have len: "length alias_example = 40" by (simp add: alias_example_def)
  have ang: "2 * pi * f * real (10 * k) = real (i * k) * pi / 2" for k
    unfolding f_def len by (simp add: field_simps)
  have g10: "g (10 * k) = alias_level (10 * k) * quarter (i * k)" if "k < 4" for k
  proof -
    have "10 * k < 40" using that by simp
    then have "map seaLevel alias_example ! (10 * k) = alias_level (10 * k)"
      by (rule alias_levels)
    then show ?thesis
      unfolding g_def ang quarter_turn[symmetric] by (simp add: algebra_simps)
  qed
  have t0: "g 0 = 1.2" using g10[of 0] by (simp add: alias_level_def quarter_def)
  have t1: "g 10 = - quarter i" using g10[of 1] by (simp add: alias_level_def)
  have t2: "g 20 = quarter (2 * i)" using g10[of 2] by (simp add: alias_level_def mult.commute)
  have t3: "g 30 = - quarter (3 * i)" using g10[of 3] by (simp add: alias_level_def mult.commute)
  have zero: "g j = 0" if "j \<in> {..<40} - {0, 10, 20, 30}" for j
  proof -
    have "j < 40" "alias_level j = 0" using that by (auto simp: alias_level_def)
    then show ?thesis unfolding g_def by (simp add: alias_levels)
  qed
  have "(\<Sum>j<40. g j) = (\<Sum>j\<in>{0, 10, 20, 30}. g j)"
    by (rule sum.mono_neutral_right) (use zero in auto)
  also have "\<dots> = g 0 + g 10 + g 20 + g 30"
    by simp
  also have "\<dots> = 1.2 - quarter i + quarter (2 * i) - quarter (3 * i)"
    unfolding t0 t1 t2 t3 by simp
  finally have "(\<Sum>j<40. g j) = 1.2 - quarter i + quarter (2 * i) - quarter (3 * i)" .
  then have fold: "foldl (\<lambda>p j. p + g j) 0 [0..<40]
      = 1.2 - quarter i + quarter (2 * i) - quarter (3 * i)"
    by (simp add: foldl_sum)
  have "bin_power (map seaLevel alias_example) f = \<bar>foldl (\<lambda>p j. p + g j) 0 [0..<40]\<bar> / 40"
    unfolding bin_power_def Let_def g_def by (simp add: len)
  then show ?thesis
    unfolding f_def[symmetric] fold .
qed

lemma alias_bin_value:
  "\<bar>1.2 - quarter i + quarter (2 * i) - quarter (3 * i)\<bar> / 40
     = (if i mod 4 = 2 then 21 / 200 else 1 / 200)"
proof -
  consider "i mod 4 = 0" | "i mod 4 = 1" | "i mod 4 = 2" | "i mod 4 = 3" by arith
  then show ?thesis
  proof cases
    case 1
    then have "(2 * i) mod 4 = 0" "(3 * i) mod 4 = 0" by presburger+
    then show ?thesis using 1 by (simp add: quarter_def)
  next
    case 2
    then have "(2 * i) mod 4 = 2" "(3 * i) mod 4 = 3" by presburger+
    then show ?thesis using 2 by (simp add: quarter_def)
  next
    case 3
    then have "(2 * i) mod 4 = 0" "(3 * i) mod 4 = 2" by presburger+
    then show ?thesis using 3 by (simp add: quarter_def)
  next
    case 4
    then have "(2 * i) mod 4 = 2" "(3 * i) mod 4 = 1" by presburger+
    then show ?thesis using 4 by (simp add: quarter_def)
  qed
qed

lemma upt_20: "[0..<20] = [0, 1, 2, 3, 4, 5, 6, 7, 8, 9, 10, 11, 12, 13, 14, 15, 16, 17, 18, 19]"
  by (simp add: upt_rec)

lemma alias_frequencies:
  "frequencies (computeSpectralAnalysis alias_example) = map (\<lambda>i. real i / 40) [0..<20]"
  unfolding frequencies_eq by (simp add: alias_example_def)

lemma alias_powers:
  "powers (computeSpectralAnalysis alias_example)
     = map (\<lambda>i. if i mod 4 = 2 then 21 / 200 else 1 / 200) [0..<20]"
proof -
  have "powers (computeSpectralAnalysis alias_example)
      = map (\<lambda>i. bin_power (map seaLevel alias_example)
                    (real i * (0.5 / (real (length alias_example) / 2))))
          [0..<(length alias_example + 1) div 2]"
    by (rule powers_eq)
  also have "(length alias_example + 1) div 2 = 20" by (simp add: alias_example_def)
  finally show ?thesis unfolding alias_bin_power alias_bin_value .
qed

lemma alias_nyquist_bin: "nyquist_bin alias_example = Some 18"
  unfolding nyquist_bin_def alias_frequencies upt_20 by simp

lemma alias_mean_power: "mean_power alias_example = 3 / 100"
  unfolding mean_power_def alias_powers upt_20 by (simp add: reduce_sum_def)

lemma alias_spectrum_at:
  "powers (computeSpectralAnalysis alias_example) ! 18 = 21 / 200"
  "powers (computeSpectralAnalysis alias_example) ! 19 = 1 / 200"
  unfolding alias_powers by simp_all

subsection \<open>The aliasing example: moving variance\<close>

lemma alias_window:
  assumes "i \<le> 30"
  shows "map seaLevel (slice i (i + 10) alias_example) = map alias_level [i..<i + 10]"
proof -
  have lv: "map seaLevel alias_example = map alias_level [0..<40]"
    by (simp add: alias_example_def comp_def)
  have "map seaLevel (slice i (i + 10) alias_example)
      = take 10 (drop i (map seaLevel alias_example))"
    by (simp add: slice_def take_map drop_map)
  also have "\<dots> = map alias_level (take 10 [i..<40])"
    unfolding lv
    by (simp add: take_map drop_map)
  also have "take 10 [i..<40] = [i..<i + 10]"
    using assms by simp
  finally show ?thesis .
qed

lemma upt_30:
  "[0..<30] = [0, 1, 2, 3, 4, 5, 6, 7, 8, 9, 10, 11, 12, 13, 14, 15, 16, 17, 18, 19,
               20, 21, 22, 23, 24, 25, 26, 27, 28, 29]"
  by (simp add: upt_rec)

lemma alias_variance:
  "calculateMovingVariance alias_example 10 = 81 / 625 # replicate 29 (9 / 100)"
proof -
  have len: "length alias_example - 10 = 30" by (simp add: alias_example_def)
  have "calculateMovingVariance alias_example 10
      = map (\<lambda>i. let window = map alias_level [i..<i + 10];
                      mean = reduce_sum window / real (length window)
                  in foldl (\<lambda>sum val. sum + (val - mean) ^ 2) 0 window / real (length window))
          [0..<30]"
    unfolding calculateMovingVariance_def len
    by (rule map_cong[OF refl]) (simp add: alias_window)
  also have "\<dots> = 81 / 625 # replicate 29 (9 / 100)"
    unfolding upt_30
    by (simp add: Let_def upt_rec alias_level_def reduce_sum_def power2_eq_square
        numeral_eq_Suc)
  finally show ?thesis .
qed

lemma alias_threshold:
  "calculateVarianceThreshold (calculateMovingVariance alias_example 10) < 81 / 625"
proof -
  have "calculateVarianceThreshold (calculateMovingVariance alias_example 10)
      = 2283 / 25000 + 2 * sqrt (31581 / 625000000)"
    unfolding alias_variance calculateVarianceThreshold_def
    by (simp add: Let_def reduce_sum_def power2_eq_square numeral_eq_Suc)
  moreover have "sqrt (31581 / 625000000) < 957 / 50000"
    by (rule real_less_lsqrt) (simp_all add: power2_eq_square)
  ultimately show ?thesis by simp
qed

lemma alias_hot: "hot_windows alias_example = [0]"
proof -
  have nine: "\<not> calculateVarianceThreshold (calculateMovingVariance alias_example 10) < 9 / 100"
  proof -
    have "calculateVarianceThreshold (calculateMovingVariance alias_example 10)
        = 2283 / 25000 + 2 * sqrt (31581 / 625000000)"
      unfolding alias_variance calculateVarianceThreshold_def
      by (simp add: Let_def reduce_sum_def power2_eq_square numeral_eq_Suc)
    moreover have "0 \<le> sqrt (31581 / 625000000 :: real)" by simp
    ultimately show ?thesis by linarith
  qed
  have "hot_windows alias_example
      = filter (\<lambda>i. calculateVarianceThreshold (calculateMovingVariance alias_example 10)
                      < (81 / 625 # replicate 29 (9 / 100)) ! i) (0 # [1..<30])"
    unfolding hot_windows_def by (simp add: alias_variance upt_conv_Cons)
  also have "\<dots> = [0]"
  proof -
    have tail: "(81 / 625 # replicate 29 (9 / 100 :: real)) ! x = 9 / 100"
      if "x \<in> set [1..<30]" for x
    proof (cases x)
      case 0
      with that show ?thesis by simp
    next
      case (Suc y)
      with that show ?thesis by simp
    qed
    have "\<not> calculateVarianceThreshold (calculateMovingVariance alias_example 10)
              < (81 / 625 # replicate 29 (9 / 100)) ! x"
      if "x \<in> set [1..<30]" for x
      unfolding tail[OF that] by (rule nine)
    then have "filter (\<lambda>i. calculateVarianceThreshold (calculateMovingVariance alias_example 10)
                      < (81 / 625 # replicate 29 (9 / 100)) ! i) [1..<30] = []"
      unfolding filter_empty_conv by blast
    then show ?thesis using alias_threshold by simp
  qed
  finally show ?thesis .
qed

lemma alias_emits: "length (detectAliasedActivity alias_example) = 1"
  unfolding aliased_structure alias_nyquist_bin
  by (simp add: alias_spectrum_at alias_mean_power alias_hot)

subsection \<open>Aliased-activity detector: the claim\<close>

lemma hot_windows_bound: "i \<in> set (hot_windows rs) \<Longrightarrow> i + 10 < length rs"
  by (auto simp: hot_windows_def calculateMovingVariance_def)

text \<open>The source's helpers compute the statistics the specification names.\<close>

lemma foldl_add_sum_list: "foldl (\<lambda>s v. s + v) a xs = a + sum_list xs"
  by (induction xs arbitrary: a) (simp_all add: add.assoc)

lemma reduce_sum_sum_list: "reduce_sum xs = sum_list xs"
  by (simp add: reduce_sum_def foldl_add_sum_list)

lemma foldl_squares_sum_list:
  "foldl (\<lambda>s v. s + (v - m) ^ 2) a xs = a + sum_list (map (\<lambda>v. (v - m) ^ 2) xs)"
  by (induction xs arbitrary: a) (simp_all add: add.assoc)

lemma window_levels:
  assumes "i < length rs - 10"
  shows "map seaLevel (slice i (i + 10) rs) = map (\<lambda>j. seaLevel (rs ! (i + j))) [0..<10]"
proof (rule nth_equalityI)
  show "length (map seaLevel (slice i (i + 10) rs))
      = length (map (\<lambda>j. seaLevel (rs ! (i + j))) [0..<10])"
    using assms by (simp add: slice_def)
next
  fix j assume "j < length (map seaLevel (slice i (i + 10) rs))"
  then have j: "j < 10" by (simp add: slice_def)
  then show "map seaLevel (slice i (i + 10) rs) ! j
      = map (\<lambda>j. seaLevel (rs ! (i + j))) [0..<10] ! j"
    using assms by (simp add: slice_def)
qed

lemma moving_variance_eq: "calculateMovingVariance rs 10 = moving_variance_spec rs"
  unfolding calculateMovingVariance_def moving_variance_spec_def
proof (rule map_cong[OF refl])
  fix i assume "i \<in> set [0..<length rs - 10]"
  then have i: "i < length rs - 10" by simp
  show "(let window = map seaLevel (slice i (i + 10) rs);
             mean = reduce_sum window / real (length window);
             var_val = foldl (\<lambda>sum val. sum + (val - mean) ^ 2) 0 window
                         / real (length window)
         in var_val)
      = variance_spec (map (\<lambda>j. seaLevel (rs ! (i + j))) [0..<10])"
    unfolding Let_def window_levels[OF i] variance_spec_def mean_spec_def
      reduce_sum_sum_list foldl_squares_sum_list
    by simp
qed

lemma variance_threshold_eq:
  "calculateVarianceThreshold v = mean_spec v + 2 * sqrt (variance_spec v)"
  unfolding calculateVarianceThreshold_def Let_def variance_spec_def mean_spec_def
    reduce_sum_sum_list foldl_squares_sum_list
  by simp

lemma mean_power_eq: "mean_power rs = mean_spec (powers (computeSpectralAnalysis rs))"
  by (simp add: mean_power_def mean_spec_def reduce_sum_sum_list)

lemma hot_windows_eq: "hot_windows rs = hot_windows_spec rs"
  unfolding hot_windows_def hot_windows_spec_def moving_variance_eq variance_threshold_eq
  by (simp add: moving_variance_spec_def)

lemma findIndex_first:
  "k < length xs \<Longrightarrow> P (xs ! k) \<Longrightarrow> (\<forall>j<k. \<not> P (xs ! j)) \<Longrightarrow> findIndex P xs = Some k"
proof (induction xs arbitrary: k)
  case Nil
  then show ?case by simp
next
  case (Cons x xs)
  show ?case
  proof (cases k)
    case 0
    then show ?thesis using Cons.prems by simp
  next
    case (Suc k')
    have nx: "\<not> P x" using Cons.prems(3) Suc by auto
    have "findIndex P xs = Some k'"
    proof (rule Cons.IH)
      show "k' < length xs" using Cons.prems(1) Suc by simp
      show "P (xs ! k')" using Cons.prems(2) Suc by simp
      show "\<forall>j<k'. \<not> P (xs ! j)"
      proof (intro allI impI)
        fix j assume "j < k'"
        then have "Suc j < k" using Suc by simp
        then show "\<not> P (xs ! j)" using Cons.prems(3) by fastforce
      qed
    qed
    then show ?thesis using nx Suc by simp
  qed
qed

lemma nyquist_bin_iff:
  "nyquist_bin rs = Some k \<longleftrightarrow>
     k < length (frequencies (computeSpectralAnalysis rs))
     \<and> frequencies (computeSpectralAnalysis rs) ! k \<ge> 0.45
     \<and> (\<forall>j<k. frequencies (computeSpectralAnalysis rs) ! j < 0.45)"
proof -
  let ?F = "frequencies (computeSpectralAnalysis rs)"
  let ?P = "\<lambda>f::real. f \<ge> 0.5 * 0.9"
  have P: "?P f \<longleftrightarrow> f \<ge> 0.45" for f by simp
  have "findIndex ?P ?F = Some k \<longleftrightarrow> k < length ?F \<and> ?P (?F ! k) \<and> (\<forall>j<k. \<not> ?P (?F ! j))"
    using findIndex_Some[of ?P ?F k] findIndex_first[of k ?F ?P] by blast
  then show ?thesis unfolding nyquist_bin_def P not_le .
qed

lemma aliased_trigger_pieces:
  assumes k: "nyquist_bin rs = Some k"
    and p: "powers (computeSpectralAnalysis rs) ! k > mean_power rs * 3"
  shows "length (detectAliasedActivity rs) = length (hot_windows rs)
        \<and> (\<forall>n<length (hot_windows rs).
             aliased_at rs n (hot_windows rs ! n) (detectAliasedActivity rs ! n)
             \<and> hot_windows rs ! n + 10 < length rs)"
proof -
  have len: "length (detectAliasedActivity rs) = length (hot_windows rs)"
    unfolding aliased_structure k using p by simp
  have "aliased_at rs n (hot_windows rs ! n) (detectAliasedActivity rs ! n)
        \<and> hot_windows rs ! n + 10 < length rs"
    if n: "n < length (hot_windows rs)" for n
  proof -
    have "hot_windows rs ! n \<in> set (hot_windows rs)" using n by simp
    then have b: "hot_windows rs ! n + 10 < length rs" by (rule hot_windows_bound)
    have "aliased_at rs n (hot_windows rs ! n) (detectAliasedActivity rs ! n)"
      unfolding aliased_structure k using p n
      by (simp add: aliased_at_def moving_variance_eq)
    then show ?thesis using b by simp
  qed
  then show ?thesis using len by blast
qed

lemma aliased_only_if:
  assumes ne: "detectAliasedActivity rs \<noteq> []"
  shows "\<exists>k. nyquist_bin rs = Some k
             \<and> powers (computeSpectralAnalysis rs) ! k > mean_power rs * 3"
proof (cases "nyquist_bin rs")
  case None
  then show ?thesis using ne unfolding aliased_structure by simp
next
  case (Some k)
  then have "powers (computeSpectralAnalysis rs) ! k > mean_power rs * 3"
    using ne unfolding aliased_structure by (simp split: if_splits)
  then show ?thesis using Some by blast
qed

text \<open>
  Claim C7, as amended. The detector emits events only when the spectrum has a bin of
  frequency at least 0.45 cycles/minute (0.9 times the Nyquist frequency) and the power
  at the \<^emph>\<open>first\<close> such bin exceeds 3 times the mean spectral power. When it does, there
  is one event per value of the 10-sample moving variance that exceeds the mean plus
  two standard deviations of the variance series, in the order of the windows: the
  \<open>n\<close>-th event is a Low-confidence Aliased Activity event that starts at the first
  sample \<open>i\<close> of its window and ends at sample \<open>min (i + 10) (N - 1)\<close>, which is always
  \<open>i + 10\<close>. The mean, the variance of a window and the standard deviation are those of
  \<^const>\<open>mean_spec\<close> and \<^const>\<open>variance_spec\<close>, stated apart from the source's helpers.
\<close>

theorem aliased_activity_trigger:
  "(detectAliasedActivity rs \<noteq> [] \<longrightarrow>
      (\<exists>k<length (frequencies (computeSpectralAnalysis rs)).
          frequencies (computeSpectralAnalysis rs) ! k \<ge> 0.45
          \<and> (\<forall>j<k. frequencies (computeSpectralAnalysis rs) ! j < 0.45)
          \<and> powers (computeSpectralAnalysis rs) ! k
              > 3 * mean_spec (powers (computeSpectralAnalysis rs))))
   \<and> (\<forall>k. k < length (frequencies (computeSpectralAnalysis rs))
            \<and> frequencies (computeSpectralAnalysis rs) ! k \<ge> 0.45
            \<and> (\<forall>j<k. frequencies (computeSpectralAnalysis rs) ! j < 0.45)
            \<and> powers (computeSpectralAnalysis rs) ! k
                > 3 * mean_spec (powers (computeSpectralAnalysis rs)) \<longrightarrow>
        length (detectAliasedActivity rs) = length (hot_windows_spec rs)
        \<and> (\<forall>n<length (hot_windows_spec rs).
             aliased_at rs n (hot_windows_spec rs ! n) (detectAliasedActivity rs ! n)
             \<and> hot_windows_spec rs ! n + 10 < length rs))
   \<and> (\<forall>i. i \<in> set (hot_windows_spec rs) \<longleftrightarrow>
            i + 10 < length rs
            \<and> variance_spec (map (\<lambda>j. seaLevel (rs ! (i + j))) [0..<10])
                > mean_spec (moving_variance_spec rs)
                  + 2 * sqrt (variance_spec (moving_variance_spec rs)))
   \<and> sorted (hot_windows_spec rs) \<and> distinct (hot_windows_spec rs)"
proof -
  let ?F = "frequencies (computeSpectralAnalysis rs)"
  let ?P = "powers (computeSpectralAnalysis rs)"
  have only: "\<exists>k<length ?F. ?F ! k \<ge> 0.45 \<and> (\<forall>j<k. ?F ! j < 0.45) \<and> ?P ! k > 3 * mean_spec ?P"
    if ne: "detectAliasedActivity rs \<noteq> []"
  proof -
    from aliased_only_if[OF ne] obtain k where k: "nyquist_bin rs = Some k"
      and p: "?P ! k > mean_power rs * 3" by blast
    have "k < length ?F \<and> ?F ! k \<ge> 0.45 \<and> (\<forall>j<k. ?F ! j < 0.45)"
      using k unfolding nyquist_bin_iff .
    moreover have "?P ! k > 3 * mean_spec ?P"
      using p unfolding mean_power_eq by (simp add: mult.commute)
    ultimately show ?thesis by blast
  qed
  have trig: "length (detectAliasedActivity rs) = length (hot_windows_spec rs)
        \<and> (\<forall>n<length (hot_windows_spec rs).
             aliased_at rs n (hot_windows_spec rs ! n) (detectAliasedActivity rs ! n)
             \<and> hot_windows_spec rs ! n + 10 < length rs)"
    if h: "k < length ?F \<and> ?F ! k \<ge> 0.45 \<and> (\<forall>j<k. ?F ! j < 0.45) \<and> ?P ! k > 3 * mean_spec ?P"
    for k
  proof -
    have k: "nyquist_bin rs = Some k"
      unfolding nyquist_bin_iff using h by blast
    have p: "?P ! k > mean_power rs * 3"
      unfolding mean_power_eq using h by (simp add: mult.commute)
    show ?thesis
      using aliased_trigger_pieces[OF k p] unfolding hot_windows_eq .
  qed
  have mem: "i \<in> set (hot_windows_spec rs) \<longleftrightarrow>
            i + 10 < length rs
            \<and> variance_spec (map (\<lambda>j. seaLevel (rs ! (i + j))) [0..<10])
                > mean_spec (moving_variance_spec rs)
                  + 2 * sqrt (variance_spec (moving_variance_spec rs))" for i
  proof -
    have nth: "moving_variance_spec rs ! i = variance_spec (map (\<lambda>j. seaLevel (rs ! (i + j))) [0..<10])"
      if "i < length rs - 10"
      using that unfolding moving_variance_spec_def by simp
    have b: "i < length rs - 10 \<longleftrightarrow> i + 10 < length rs" by arith
    show ?thesis
      unfolding hot_windows_spec_def set_filter using nth b by auto
  qed
  have so: "sorted (hot_windows_spec rs)" "distinct (hot_windows_spec rs)"
    unfolding hot_windows_spec_def by (simp_all add: sorted_wrt_filter)
  show ?thesis using only trig mem so by blast
qed

text \<open>
  The theorem at a series of 40 one-minute samples that is 1.2, -1, 1, -1 at minutes 0,
  10, 20, 30 and 0 elsewhere: the first bin at or above 0.45 is bin 18, and the one
  event is for the window at minute 0.
\<close>

theorem aliased_activity_trigger_witness:
  "(\<exists>k<length (frequencies (computeSpectralAnalysis alias_example)).
       frequencies (computeSpectralAnalysis alias_example) ! k \<ge> 0.45
       \<and> powers (computeSpectralAnalysis alias_example) ! k
           > 3 * mean_spec (powers (computeSpectralAnalysis alias_example)))
   \<and> hot_windows_spec alias_example = [0]
   \<and> length (detectAliasedActivity alias_example) = 1
   \<and> aliased_at alias_example 0 0 (detectAliasedActivity alias_example ! 0)"
proof -
  let ?F = "frequencies (computeSpectralAnalysis alias_example)"
  let ?P = "powers (computeSpectralAnalysis alias_example)"
  have ne: "detectAliasedActivity alias_example \<noteq> []"
    using alias_emits by auto
  have hot: "hot_windows_spec alias_example = [0]"
    using alias_hot unfolding hot_windows_eq .
  have k: "18 < length ?F \<and> ?F ! 18 \<ge> 0.45 \<and> (\<forall>j<18. ?F ! j < 0.45)"
    using alias_nyquist_bin unfolding nyquist_bin_iff .
  have p: "?P ! 18 > 3 * mean_spec ?P"
    using alias_mean_power unfolding mean_power_eq by (simp add: alias_spectrum_at)
  note t = aliased_activity_trigger[of alias_example]
  have a: "\<exists>k<length ?F. ?F ! k \<ge> 0.45 \<and> ?P ! k > 3 * mean_spec ?P"
    using mp[OF t[THEN conjunct1] ne] by blast
  have b: "length (detectAliasedActivity alias_example) = length (hot_windows_spec alias_example)
        \<and> (\<forall>n<length (hot_windows_spec alias_example).
             aliased_at alias_example n (hot_windows_spec alias_example ! n)
               (detectAliasedActivity alias_example ! n)
             \<and> hot_windows_spec alias_example ! n + 10 < length alias_example)"
    using t[THEN conjunct2, THEN conjunct1] k p by blast
  show ?thesis using a b hot by simp
qed

text \<open>
  Claim C7 as stated fails on that series. Its 20 bins are at \<open>i / 40\<close>, so the bin
  nearest the Nyquist frequency 0.5 is bin 19, at 0.475. The power there is 0.005, not
  above 3 times the mean power 0.03; yet an event is emitted, because the source tests
  bin 18, at 0.45, whose power is 0.105.
\<close>

theorem aliased_nearest_bin_counterexample:
  "detectAliasedActivity alias_example \<noteq> []
   \<and> frequencies (computeSpectralAnalysis alias_example) = map (\<lambda>i. real i / 40) [0..<20]
   \<and> powers (computeSpectralAnalysis alias_example) ! 19 = 1 / 200
   \<and> powers (computeSpectralAnalysis alias_example) ! 18 = 21 / 200
   \<and> mean_spec (powers (computeSpectralAnalysis alias_example)) = 3 / 100
   \<and> \<not> powers (computeSpectralAnalysis alias_example) ! 19
         > 3 * mean_spec (powers (computeSpectralAnalysis alias_example))"
proof -
  have "detectAliasedActivity alias_example \<noteq> []"
    using alias_emits by auto
  moreover have "mean_spec (powers (computeSpectralAnalysis alias_example)) = 3 / 100"
    using alias_mean_power unfolding mean_power_eq .
  ultimately show ?thesis
    by (simp add: alias_frequencies alias_spectrum_at)
qed

end
